theory Spec2Isabelle
  imports Main
begin

section \<open>Custom git provider: packages/builders/src/utils/providers/git.ts\<close>

text \<open>
  A shallow embedding of the custom git provider. A JavaScript string is a \<^typ>\<open>string\<close>
  whose characters are read as code units below 256; the two glyphs of the log lines that
  lie outside that range are given by the bytes the sink stores for them.
\<close>

subsection \<open>JavaScript values\<close>

text \<open>A value of type \<^verbatim>\<open>string | null | undefined\<close>.\<close>

datatype ostring = Undefined | Null | Str string

text \<open>The condition \<^verbatim>\<open>if (x)\<close> holds exactly for a non-empty string; \<^verbatim>\<open>!x\<close> is its negation.\<close>

fun truthy :: "ostring \<Rightarrow> bool" where
  "truthy (Str s) = (s \<noteq> [])"
| "truthy Undefined = False"
| "truthy Null = False"

fun falsy :: "ostring \<Rightarrow> bool" where
  "falsy (Str s) = (s = [])"
| "falsy Undefined = True"
| "falsy Null = True"

text \<open>The text a template literal \<^verbatim>\<open>${x}\<close> inserts.\<close>

fun tpl :: "ostring \<Rightarrow> string" where
  "tpl (Str s) = s"
| "tpl Undefined = ''undefined''"
| "tpl Null = ''null''"

text \<open>Errors: a \<^verbatim>\<open>TRPCError\<close> with its code and message, or a plain \<^verbatim>\<open>Error\<close>.\<close>

datatype error = TRPCError string string | JsError string

text \<open>\<^verbatim>\<open>${error}\<close>: the name, a colon and the message (\<^verbatim>\<open>Error.prototype.toString\<close>).\<close>

fun error_name :: "error \<Rightarrow> string" where
  "error_name (TRPCError c m) = ''TRPCError''"
| "error_name (JsError m) = ''Error''"

fun error_message :: "error \<Rightarrow> string" where
  "error_message (TRPCError c m) = m"
| "error_message (JsError m) = m"

definition error_to_string :: "error \<Rightarrow> string" where
  "error_to_string e =
     (if error_message e = [] then error_name e
      else error_name e @ '': '' @ error_message e)"

text \<open>Decimal digits of a number, as \<^verbatim>\<open>${port}\<close> prints a non-negative integer.\<close>

definition digit_char :: "nat \<Rightarrow> char" where
  "digit_char d = char_of (48 + d)"

function show_nat :: "nat \<Rightarrow> string" where
  "show_nat n = (if n < 10 then [digit_char n] else show_nat (n div 10) @ [digit_char (n mod 10)])"
  by pat_completeness auto
termination
  by (relation "measure id") auto

declare show_nat.simps [simp del]

text \<open>
  \<^verbatim>\<open>Number(s)\<close> on a string of ASCII digits: its decimal value. The port group only
  captures such strings.
\<close>

definition digit_val :: "char \<Rightarrow> nat" where
  "digit_val c = of_char c - 48"

definition Number_digits :: "string \<Rightarrow> nat" where
  "Number_digits ds = foldl (\<lambda>acc c. 10 * acc + digit_val c) 0 ds"

subsection \<open>Regular expressions\<close>

text \<open>
  The pattern language the source uses, and its backtracking semantics as ECMAScript gives
  it, with the flag \<^verbatim>\<open>i\<close> and without the flags \<^verbatim>\<open>u\<close>, \<^verbatim>\<open>m\<close> and \<^verbatim>\<open>s\<close>.
\<close>

datatype cls = CRange char char | CChar char | CSpace

datatype bound = Fin nat | Inf

datatype re =
    Lit char
  | Dot
  | Cls "cls list"
  | NCls "cls list"
  | Bol
  | Eol
  | Seq re re
  | Alt re re
  | Rep nat bound re
  | Grp string re
  | NLook re

definition in_range :: "char \<Rightarrow> char \<Rightarrow> char \<Rightarrow> bool" where
  "in_range lo hi c = ((of_char lo :: nat) \<le> of_char c \<and> (of_char c :: nat) \<le> of_char hi)"

text \<open>
  With the flag \<^verbatim>\<open>i\<close> (the argument \<open>ic\<close>) two code units match when their canonical (upper-case) forms agree.
  Every literal and class member of the pattern is ASCII, so a code unit below 256 agrees
  with it exactly when it is that member or its other ASCII case.
\<close>

definition swap_case :: "char \<Rightarrow> char" where
  "swap_case c =
     (if in_range (CHR ''a'') (CHR ''z'') c then char_of (of_char c - (32 :: nat))
      else if in_range (CHR ''A'') (CHR ''Z'') c then char_of (of_char c + (32 :: nat))
      else c)"

definition lit_match :: "bool \<Rightarrow> char \<Rightarrow> char \<Rightarrow> bool" where
  "lit_match ic a c = (c = a \<or> (ic \<and> swap_case c = a))"

text \<open>\<^verbatim>\<open>\s\<close>: white space and line terminators below 256.\<close>

definition is_space :: "char \<Rightarrow> bool" where
  "is_space c = (c \<in> set [CHR 0x09, CHR 0x0A, CHR 0x0B, CHR 0x0C, CHR 0x0D, CHR 0x20, CHR 0xA0])"

definition is_line_terminator :: "char \<Rightarrow> bool" where
  "is_line_terminator c = (c = CHR 0x0A \<or> c = CHR 0x0D)"

fun cls_match :: "bool \<Rightarrow> cls \<Rightarrow> char \<Rightarrow> bool" where
  "cls_match ic (CRange lo hi) c = (in_range lo hi c \<or> (ic \<and> in_range lo hi (swap_case c)))"
| "cls_match ic (CChar a) c = lit_match ic a c"
| "cls_match ic CSpace c = is_space c"

text \<open>The match state: the input from the end index on, and the named captures.\<close>

record mstate =
  rest :: string
  caps :: "string \<rightharpoonup> string"

definition advance :: "mstate \<Rightarrow> mstate" where
  "advance s = s\<lparr>rest := tl (rest s)\<rparr>"

definition one_char :: "(char \<Rightarrow> bool) \<Rightarrow> mstate \<Rightarrow> mstate list" where
  "one_char p s = (case rest s of [] \<Rightarrow> [] | c # cs \<Rightarrow> if p c then [advance s] else [])"

fun group_names :: "re \<Rightarrow> string list" where
  "group_names (Seq r1 r2) = group_names r1 @ group_names r2"
| "group_names (Alt r1 r2) = group_names r1 @ group_names r2"
| "group_names (Rep mn mx r) = group_names r"
| "group_names (Grp g r) = g # group_names r"
| "group_names (NLook r) = group_names r"
| "group_names r = []"

definition clear_caps :: "string list \<Rightarrow> mstate \<Rightarrow> mstate" where
  "clear_caps gs s = s\<lparr>caps := (\<lambda>k. if k \<in> set gs then None else caps s k)\<rparr>"

definition set_cap :: "string \<Rightarrow> mstate \<Rightarrow> mstate \<Rightarrow> mstate" where
  "set_cap g s y = y\<lparr>caps := (caps y)(g \<mapsto> take (length (rest s) - length (rest y)) (rest s))\<rparr>"

fun dec :: "bound \<Rightarrow> bound" where
  "dec (Fin n) = Fin (n - 1)"
| "dec Inf = Inf"

fun re_size :: "re \<Rightarrow> nat" where
  "re_size (Seq r1 r2) = Suc (re_size r1 + re_size r2)"
| "re_size (Alt r1 r2) = Suc (re_size r1 + re_size r2)"
| "re_size (Rep mn mx r) = Suc (re_size r)"
| "re_size (Grp g r) = Suc (re_size r)"
| "re_size (NLook r) = Suc (re_size r)"
| "re_size r = 0"

fun rep_min :: "re \<Rightarrow> nat" where
  "rep_min (Rep mn mx r) = mn"
| "rep_min r = 0"

text \<open>
  \<open>matcher ic n r s\<close> lists, in the order backtracking tries them, the states in which the
  pattern \<open>r\<close> can end when started in state \<open>s\<close> of an input of length \<open>n\<close>, with the flag
  \<^verbatim>\<open>i\<close> set when \<open>ic\<close> holds; the head of
  the list is what the matcher returns. A quantifier follows the RepeatMatcher of the
  language definition: captures of the body are reset before each round, a round of an
  optional repetition that consumes nothing is dropped (the end index only moves forward,
  so that test compares the lengths left), and the greedy choice comes first.
\<close>

function matcher :: "bool \<Rightarrow> nat \<Rightarrow> re \<Rightarrow> mstate \<Rightarrow> mstate list" where
  "matcher ic n (Lit a) s = one_char (lit_match ic a) s"
| "matcher ic n Dot s = one_char (\<lambda>c. \<not> is_line_terminator c) s"
| "matcher ic n (Cls cs) s = one_char (\<lambda>c. list_ex (\<lambda>k. cls_match ic k c) cs) s"
| "matcher ic n (NCls cs) s = one_char (\<lambda>c. \<not> list_ex (\<lambda>k. cls_match ic k c) cs) s"
| "matcher ic n Bol s = (if length (rest s) = n then [s] else [])"
| "matcher ic n Eol s = (if rest s = [] then [s] else [])"
| "matcher ic n (Seq r1 r2) s = concat (map (matcher ic n r2) (matcher ic n r1 s))"
| "matcher ic n (Alt r1 r2) s = matcher ic n r1 s @ matcher ic n r2 s"
| "matcher ic n (Rep mn mx r) s =
     (if mx = Fin 0 then [s]
      else concat (map (matcher ic n (Rep (mn - 1) (dec mx) r))
             (filter (\<lambda>y. mn \<noteq> 0 \<or> length (rest y) < length (rest s))
                (matcher ic n r (clear_caps (group_names r) s))))
           @ (if mn \<noteq> 0 then [] else [s]))"
| "matcher ic n (Grp g r) s = map (set_cap g s) (matcher ic n r s)"
| "matcher ic n (NLook r) s = (if matcher ic n r s = [] then [s] else [])"
  by pat_completeness auto
termination
  by (relation "measures [\<lambda>(ic, n, r, s). re_size r, \<lambda>(ic, n, r, s). rep_min r, \<lambda>(ic, n, r, s). length (rest s)]")
     auto

declare matcher.simps(9) [simp del]

text \<open>
  \<^verbatim>\<open>input.match(re)\<close> for a pattern without the flag \<^verbatim>\<open>g\<close>: the start indices are
  tried from 0 up, and the captures of the first match are returned.
\<close>

definition match_at :: "bool \<Rightarrow> re \<Rightarrow> string \<Rightarrow> nat \<Rightarrow> (string \<rightharpoonup> string) option" where
  "match_at ic r input i =
     (case matcher ic (length input) r \<lparr>rest = drop i input, caps = Map.empty\<rparr> of
        [] \<Rightarrow> None
      | y # ys \<Rightarrow> Some (caps y))"

fun first_some :: "('a \<Rightarrow> 'b option) \<Rightarrow> 'a list \<Rightarrow> 'b option" where
  "first_some f [] = None"
| "first_some f (x # xs) = (case f x of Some y \<Rightarrow> Some y | None \<Rightarrow> first_some f xs)"

definition js_match :: "bool \<Rightarrow> re \<Rightarrow> string \<Rightarrow> (string \<rightharpoonup> string) option" where
  "js_match ic r input = first_some (match_at ic r input) [0..<Suc (length input)]"

subsection \<open>The reference parser\<close>

text \<open>
  The eight pieces of \<^verbatim>\<open>SSH_PATH_RE\<close>, in the order of the source's array; the pattern is
  compiled with the flag \<^verbatim>\<open>i\<close>.
\<close>

definition re_lead :: re where
  "re_lead = Seq Bol (Rep 0 Inf (Cls [CSpace]))"

definition re_proto :: re where
  "re_proto =
     Rep 0 (Fin 1)
       (Seq (Grp ''proto'' (Rep 1 Inf (Cls [CRange (CHR ''a'') (CHR ''z'')])))
         (Seq (Lit (CHR '':'')) (Seq (Lit (CHR ''/'')) (Lit (CHR ''/'')))))"

definition re_user :: re where
  "re_user =
     Rep 0 (Fin 1)
       (Seq (Grp ''user''
               (Seq (Cls [CRange (CHR ''a'') (CHR ''z''), CChar (CHR ''_'')])
                    (Rep 1 Inf (Cls [CRange (CHR ''a'') (CHR ''z''), CRange (CHR ''0'') (CHR ''9''),
                                     CChar (CHR ''_''), CChar (CHR ''-'')]))))
            (Lit (CHR ''@'')))"

definition seg_chars :: "cls list" where
  "seg_chars = [CSpace, CChar (CHR ''/''), CChar (CHR ''?''), CChar (CHR ''#''), CChar (CHR '':'')]"

definition re_domain :: re where
  "re_domain = Grp ''domain'' (Rep 1 Inf (NCls seg_chars))"

definition re_port :: re where
  "re_port =
     Rep 0 (Fin 1)
       (Seq (Lit (CHR '':''))
            (Grp ''port'' (Rep 1 (Fin 5) (Cls [CRange (CHR ''0'') (CHR ''9'')]))))"

definition re_sep :: re where
  "re_sep = Cls [CChar (CHR ''/''), CChar (CHR '':'')]"

definition re_owner :: re where
  "re_owner = Rep 0 (Fin 1) (Seq re_sep (Grp ''owner'' (Rep 1 Inf (NCls seg_chars))))"

definition re_git_end :: re where
  "re_git_end =
     Seq (Lit (CHR ''g'')) (Seq (Lit (CHR ''i'')) (Seq (Lit (CHR ''t''))
       (Seq (Rep 0 (Fin 1) (Lit (CHR ''/''))) (Seq (Rep 0 Inf (Cls [CSpace])) Eol))))"

definition re_repo_char :: re where
  "re_repo_char =
     Alt (NCls [CSpace, CChar (CHR ''?''), CChar (CHR ''#''), CChar (CHR '':''), CChar (CHR ''.'')])
         (Seq (Lit (CHR ''.'')) (NLook re_git_end))"

definition re_repo :: re where
  "re_repo = Seq re_sep (Grp ''repo'' (Rep 1 Inf re_repo_char))"

definition re_tail :: re where
  "re_tail =
     Seq (Rep 0 (Fin 1) (Seq Dot (Seq (Lit (CHR ''g'')) (Seq (Lit (CHR ''i'')) (Lit (CHR ''t''))))))
       (Seq (Rep 0 (Fin 1) (Lit (CHR ''/''))) (Seq (Rep 0 Inf (Cls [CSpace])) Eol))"

definition SSH_PATH_RE :: re where
  "SSH_PATH_RE =
     Seq re_lead (Seq re_proto (Seq re_user (Seq re_domain
       (Seq re_port (Seq re_owner (Seq re_repo re_tail))))))"

record ssh_location =
  user :: string
  domain :: ostring
  port :: nat
  owner :: string
  repo :: ostring

definition group_or_undefined :: "(string \<rightharpoonup> string) \<Rightarrow> string \<Rightarrow> ostring" where
  "group_or_undefined groups g = (case groups g of None \<Rightarrow> Undefined | Some v \<Rightarrow> Str v)"

definition sanitizeRepoPathSSH :: "string \<Rightarrow> error + ssh_location" where
  "sanitizeRepoPathSSH input =
     (case js_match True SSH_PATH_RE input of
        None \<Rightarrow> Inl (JsError (''Malformatted SSH path: '' @ input))
      | Some groups \<Rightarrow>
          Inr \<lparr>user = (case groups ''user'' of None \<Rightarrow> ''git'' | Some u \<Rightarrow> u),
               domain = group_or_undefined groups ''domain'',
               port = (case groups ''port'' of None \<Rightarrow> 22 | Some p \<Rightarrow> Number_digits p),
               owner = (case groups ''owner'' of None \<Rightarrow> '''' | Some v \<Rightarrow> v),
               repo = group_or_undefined groups ''repo''\<rparr>)"

text \<open>The getter \<^verbatim>\<open>repoPath\<close> of the returned object.\<close>

definition repoPath :: "ssh_location \<Rightarrow> string" where
  "repoPath l =
     ''ssh://'' @ user l @ ''@'' @ tpl (domain l) @ '':'' @ show_nat (port l) @ ''/'' @ owner l
       @ (if owner l = [] then [] else ''/'') @ tpl (repo l) @ ''.git''"

subsection \<open>Collaborators and effects\<close>

text \<open>
  What the module imports but does not define is a parameter: the path table
  \<^verbatim>\<open>paths(isServer)\<close>, \<^verbatim>\<open>path.join\<close>, the clock, the ambient process environment, and the
  outcome of every awaited collaborator (\<open>None\<close> when its promise resolves, the error it
  rejects with otherwise). \<^verbatim>\<open>spawnAsync\<close> also gives the output chunks it hands to its
  callback before it settles.
\<close>

record paths_t =
  SSH_PATH :: string
  COMPOSE_PATH :: string
  APPLICATIONS_PATH :: string

record env =
  paths :: "bool \<Rightarrow> paths_t"
  path_join :: "string list \<Rightarrow> string"
  now_iso :: string
  process_env :: "(string \<times> string) list"
  execAsync :: "string \<Rightarrow> error option"
  recreateDirectory :: "string \<Rightarrow> error option"
  updateSSHKeyById :: "string \<Rightarrow> string \<Rightarrow> error option"
  spawnAsync :: "string \<Rightarrow> string list \<Rightarrow> (string \<times> string) list \<Rightarrow> string list \<times> error option"
  execAsyncRemote :: "ostring \<Rightarrow> string \<Rightarrow> error option"

text \<open>Everything the module does to the outside, in the order it does it.\<close>

datatype event =
    CreateWriteStream string
  | Write string
  | End
  | ExecAsync string
  | ConsoleError string
  | ConsoleLog string
  | RecreateDirectory string
  | UpdateSSHKeyById string string
  | SpawnAsync string "string list" "(string \<times> string) list"
  | ExecAsyncRemote ostring string

record world =
  trace :: "event list"
  writable :: bool

definition world0 :: world where
  "world0 = \<lparr>trace = [], writable = False\<rparr>"

type_synonym 'a io = "world \<Rightarrow> (error + 'a) \<times> world"

definition ret :: "'a \<Rightarrow> 'a io" where
  "ret x w = (Inr x, w)"

definition throw :: "error \<Rightarrow> 'a io" where
  "throw e w = (Inl e, w)"

definition bind :: "'a io \<Rightarrow> ('a \<Rightarrow> 'b io) \<Rightarrow> 'b io" where
  "bind m f w = (case m w of (Inl e, w') \<Rightarrow> (Inl e, w') | (Inr x, w') \<Rightarrow> f x w')"

fun steps :: "unit io list \<Rightarrow> unit io" where
  "steps [] = ret ()"
| "steps (m # ms) = bind m (\<lambda>_. steps ms)"

definition when_true :: "bool \<Rightarrow> unit io \<Rightarrow> unit io" where
  "when_true b m = (if b then m else ret ())"

definition emit :: "event \<Rightarrow> unit io" where
  "emit ev w = (Inr (), w\<lparr>trace := trace w @ [ev]\<rparr>)"

text \<open>\<^verbatim>\<open>await f(...)\<close>: the call is made, and a rejection is thrown.\<close>

definition await :: "event \<Rightarrow> error option \<Rightarrow> unit io" where
  "await ev outcome = bind (emit ev) (\<lambda>_. case outcome of None \<Rightarrow> ret () | Some e \<Rightarrow> throw e)"

definition try_catch :: "'a io \<Rightarrow> (error \<Rightarrow> 'a io) \<Rightarrow> 'a io" where
  "try_catch m handler w = (case m w of (Inl e, w') \<Rightarrow> handler e w' | (Inr x, w') \<Rightarrow> (Inr x, w'))"

definition try_finally :: "'a io \<Rightarrow> unit io \<Rightarrow> 'a io" where
  "try_finally m fin w =
     (case m w of (r, w') \<Rightarrow>
        (case fin w' of (Inl e, w'') \<Rightarrow> (Inl e, w'') | (Inr _, w'') \<Rightarrow> (r, w'')))"

definition lift_result :: "error + 'a \<Rightarrow> 'a io" where
  "lift_result r = (case r of Inl e \<Rightarrow> throw e | Inr x \<Rightarrow> ret x)"

text \<open>The write stream of \<^verbatim>\<open>createWriteStream(logPath, { flags: "a" })\<close>.\<close>

definition createWriteStream :: "string \<Rightarrow> unit io" where
  "createWriteStream logPath w = (Inr (), w\<lparr>trace := trace w @ [CreateWriteStream logPath], writable := True\<rparr>)"

definition stream_write :: "string \<Rightarrow> unit io" where
  "stream_write text = emit (Write text)"

definition stream_end :: "unit io" where
  "stream_end w = (Inr (), w\<lparr>trace := trace w @ [End], writable := False\<rparr>)"

subsection \<open>Text pieces\<close>

definition NL :: string where
  "NL = [CHR 0x0A]"

definition TAB :: string where
  "TAB = [CHR 0x09]"

definition DQ :: string where
  "DQ = [CHR 0x22]"

text \<open>U+2705 and U+274C, as the bytes written.\<close>

definition check_mark :: string where
  "check_mark = [CHR 0xE2, CHR 0x9C, CHR 0x85]"

definition cross_mark :: string where
  "cross_mark = [CHR 0xE2, CHR 0x9D, CHR 0x8C]"

text \<open>\<^verbatim>\<open>array.join(sep)\<close>.\<close>

fun join_with :: "string \<Rightarrow> string list \<Rightarrow> string" where
  "join_with sep [] = []"
| "join_with sep [x] = x"
| "join_with sep (x # y # ys) = x @ sep @ join_with sep (y # ys)"

subsection \<open>The host classifier and the known-hosts registrar\<close>

text \<open>\<^verbatim>\<open>/^https?:\/\//\<close>, without flags.\<close>

definition http_re :: re where
  "http_re =
     Seq Bol (Seq (Lit (CHR ''h'')) (Seq (Lit (CHR ''t'')) (Seq (Lit (CHR ''t'')) (Seq (Lit (CHR ''p'')) 
       (Seq (Rep 0 (Fin 1) (Lit (CHR ''s'')))
         (Seq (Lit (CHR '':'')) (Seq (Lit (CHR ''/'')) (Lit (CHR ''/'')))))))))"

definition isHttpOrHttps :: "string \<Rightarrow> bool" where
  "isHttpOrHttps url = (js_match False http_re url \<noteq> None)"

definition knownHostsPath_of :: "env \<Rightarrow> bool \<Rightarrow> string" where
  "knownHostsPath_of E isServer = path_join E [SSH_PATH (paths E isServer), ''known_hosts'']"

definition keyscan_command :: "env \<Rightarrow> ssh_location \<Rightarrow> string" where
  "keyscan_command E l =
     ''ssh-keyscan -p '' @ show_nat (port l) @ '' '' @ tpl (domain l) @ '' >> '' @ knownHostsPath_of E False"

definition addHostToKnownHosts :: "env \<Rightarrow> string \<Rightarrow> unit io" where
  "addHostToKnownHosts E repositoryURL =
     bind (lift_result (sanitizeRepoPathSSH repositoryURL)) (\<lambda>l.
       let command = keyscan_command E l
       in try_catch (await (ExecAsync command) (execAsync E command))
            (\<lambda>error. bind (emit (ConsoleError (''Error adding host to known_hosts: '' @ error_to_string error)))
                        (\<lambda>_. throw error)))"

definition addHostToKnownHostsCommand :: "env \<Rightarrow> string \<Rightarrow> error + string" where
  "addHostToKnownHostsCommand E repositoryURL =
     (case sanitizeRepoPathSSH repositoryURL of
        Inl e \<Rightarrow> Inl e
      | Inr l \<Rightarrow> Inr (keyscan_command E l @ '';''))"

subsection \<open>The clone operations\<close>

record git_entity =
  appName :: string
  customGitUrl :: ostring
  customGitBranch :: ostring
  customGitSSHKeyId :: ostring

record remote_entity = git_entity +
  serverId :: ostring

definition repository_not_found :: error where
  "repository_not_found = TRPCError ''BAD_REQUEST'' ''Error: Repository not found''"

definition keyPath_of :: "env \<Rightarrow> bool \<Rightarrow> ostring \<Rightarrow> string" where
  "keyPath_of E isServer keyId = path_join E [SSH_PATH (paths E isServer), tpl keyId @ ''_rsa'']"

definition outputPath_of :: "env \<Rightarrow> bool \<Rightarrow> bool \<Rightarrow> string \<Rightarrow> string" where
  "outputPath_of E isServer isCompose name =
     path_join E [if isCompose then COMPOSE_PATH (paths E isServer) else APPLICATIONS_PATH (paths E isServer),
                  name, ''code'']"

definition git_ssh_command :: "string \<Rightarrow> string \<Rightarrow> string" where
  "git_ssh_command keyPath knownHostsPath = ''ssh -i '' @ keyPath @ '' -o UserKnownHostsFile='' @ knownHostsPath"

text \<open>
  A property set on an object built by a spread: a key the object already has keeps its place
  and takes the new value, a new key goes to the end.
\<close>

fun set_property :: "string \<Rightarrow> string \<Rightarrow> (string \<times> string) list \<Rightarrow> (string \<times> string) list" where
  "set_property k v [] = [(k, v)]"
| "set_property k v ((k', v') # ps) = (if k' = k then (k, v) # ps else (k', v') # set_property k v ps)"

text \<open>
  The \<^verbatim>\<open>env\<close> option of the spawn, \<^verbatim>\<open>{...process.env, ...(customGitSSHKeyId && {GIT_SSH_COMMAND: ...})}\<close>:
  the process environment, in which the ssh command is set when a key id is given.
\<close>

definition spawn_env :: "env \<Rightarrow> ostring \<Rightarrow> string \<Rightarrow> string \<Rightarrow> (string \<times> string) list" where
  "spawn_env E keyId keyPath knownHostsPath =
     (if truthy keyId
      then set_property ''GIT_SSH_COMMAND'' (git_ssh_command keyPath knownHostsPath) (process_env E)
      else process_env E)"

text \<open>
  \<^verbatim>\<open>await spawnAsync(cmd, args, onData, options)\<close>: the child is started, each chunk goes
  to the callback, then the promise settles.
\<close>

definition spawn :: "env \<Rightarrow> string \<Rightarrow> string list \<Rightarrow> (string \<Rightarrow> unit io) \<Rightarrow> (string \<times> string) list \<Rightarrow> unit io" where
  "spawn E cmd args onData envv =
     (case spawnAsync E cmd args envv of (chunks, outcome) \<Rightarrow>
        steps (emit (SpawnAsync cmd args envv) # map onData chunks
               @ [case outcome of None \<Rightarrow> ret () | Some e \<Rightarrow> throw e]))"

definition touch_key :: "env \<Rightarrow> ostring \<Rightarrow> unit io" where
  "touch_key E keyId =
     when_true (truthy keyId)
       (await (UpdateSSHKeyById (tpl keyId) (now_iso E)) (updateSSHKeyById E (tpl keyId) (now_iso E)))"

definition local_clone_args :: "string \<Rightarrow> string \<Rightarrow> string \<Rightarrow> string list" where
  "local_clone_args branch url outputPath =
     [''clone'', ''--branch'', branch, ''--depth'', ''1'', ''--recurse-submodules'', url, outputPath,
      ''--progress'']"

definition cloning_line :: "string \<Rightarrow> string \<Rightarrow> string" where
  "cloning_line url outputPath = NL @ ''Cloning Repo Custom '' @ url @ '' to '' @ outputPath @ '': '' @ check_mark @ NL"

definition cloned_line :: "string \<Rightarrow> string" where
  "cloned_line url = NL @ ''Cloned Custom Git '' @ url @ '': '' @ check_mark @ NL"

definition failure_line :: "error \<Rightarrow> string" where
  "failure_line e = NL @ ''ERROR Cloning Custom Git: '' @ error_to_string e @ '': '' @ cross_mark @ NL"

definition forward_chunk :: "string \<Rightarrow> unit io" where
  "forward_chunk data w = (if writable w then stream_write data w else ret () w)"

text \<open>The statements of the \<^verbatim>\<open>try\<close> block of \<^verbatim>\<open>cloneGitRepository\<close>.\<close>

definition clone_try_block :: "env \<Rightarrow> string \<Rightarrow> string \<Rightarrow> ostring \<Rightarrow> string \<Rightarrow> string \<Rightarrow> string \<Rightarrow> unit io" where
  "clone_try_block E url branch keyId keyPath outputPath knownHostsPath =
     steps
       [when_true (\<not> isHttpOrHttps url) (addHostToKnownHosts E url),
        await (RecreateDirectory outputPath) (recreateDirectory E outputPath),
        stream_write (cloning_line url outputPath),
        touch_key E keyId,
        spawn E ''git'' (local_clone_args branch url outputPath) forward_chunk
          (spawn_env E keyId keyPath knownHostsPath),
        stream_write (cloned_line url)]"

definition cloneGitRepository :: "env \<Rightarrow> git_entity \<Rightarrow> string \<Rightarrow> bool \<Rightarrow> unit io" where
  "cloneGitRepository E entity logPath isCompose =
     (if falsy (customGitUrl entity) \<or> falsy (customGitBranch entity)
      then throw repository_not_found
      else
        let url = tpl (customGitUrl entity);
            branch = tpl (customGitBranch entity);
            keyId = customGitSSHKeyId entity;
            keyPath = keyPath_of E False keyId;
            outputPath = outputPath_of E False isCompose (appName entity);
            knownHostsPath = knownHostsPath_of E False
        in bind (createWriteStream logPath) (\<lambda>_.
             try_finally
               (try_catch
                  (clone_try_block E url branch keyId keyPath outputPath knownHostsPath)
                  (\<lambda>error. bind (stream_write (failure_line error)) (\<lambda>_. throw error)))
               stream_end))"

definition missing_reference_command :: "string \<Rightarrow> string" where
  "missing_reference_command logPath =
     NL @ TAB @ TAB @ TAB @ ''echo  '' @ DQ @ ''Error: '' @ cross_mark @ '' Repository not found'' @ DQ
       @ '' >> '' @ logPath @ '';'' @ NL @ TAB @ TAB @ TAB @ ''exit 1;'' @ NL @ TAB @ TAB"

text \<open>The words of the clone command line in the generated scripts.\<close>

definition remote_clone_words :: "string \<Rightarrow> string \<Rightarrow> string \<Rightarrow> string list" where
  "remote_clone_words branch url outputPath =
     [''git'', ''clone'', ''--branch'', branch, ''--depth'', ''1'', ''--progress'', url, outputPath]"

definition remote_clone_block :: "string \<Rightarrow> string \<Rightarrow> string \<Rightarrow> string \<Rightarrow> string" where
  "remote_clone_block branch url outputPath logPath =
     ''if ! '' @ join_with '' '' (remote_clone_words branch url outputPath) @ '' >> '' @ logPath
       @ '' 2>&1; then'' @ NL
       @ TAB @ TAB @ TAB @ TAB @ ''echo '' @ DQ @ cross_mark @ '' [ERROR] Fail to clone the repository '' @ url
       @ DQ @ '' >> '' @ logPath @ '';'' @ NL
       @ TAB @ TAB @ TAB @ TAB @ ''exit 1;'' @ NL
       @ TAB @ TAB @ TAB @ ''fi'' @ NL
       @ TAB @ TAB @ TAB"

definition git_ssh_assignment :: "string \<Rightarrow> string \<Rightarrow> string" where
  "git_ssh_assignment keyPath knownHostsPath =
     ''GIT_SSH_COMMAND='' @ DQ @ git_ssh_command keyPath knownHostsPath @ DQ"

definition custom_git_script :: "env \<Rightarrow> string \<Rightarrow> string \<Rightarrow> ostring \<Rightarrow> string \<Rightarrow> string \<Rightarrow> string \<Rightarrow> string \<Rightarrow> error + string" where
  "custom_git_script E url branch keyId keyPath outputPath knownHostsPath logPath =
     (case (if \<not> isHttpOrHttps url then map_sum id (\<lambda>c. [c]) (addHostToKnownHostsCommand E url) else Inr []) of
        Inl e \<Rightarrow> Inl e
      | Inr scan \<Rightarrow>
          Inr (join_with NL
            (scan
             @ [''rm -rf '' @ outputPath @ '';'',
                ''mkdir -p '' @ outputPath @ '';'',
                ''echo '' @ DQ @ ''Cloning Custom Git '' @ url @ DQ @ '' to '' @ outputPath @ '': ''
                  @ check_mark @ '' >> '' @ logPath @ '';'']
             @ (if truthy keyId then [git_ssh_assignment keyPath knownHostsPath] else [])
             @ [remote_clone_block branch url outputPath logPath,
                ''echo '' @ DQ @ ''Cloned Custom Git '' @ url @ '': '' @ check_mark @ DQ @ '' >> '' @ logPath
                  @ '';''])))"

definition getCustomGitCloneCommand :: "env \<Rightarrow> remote_entity \<Rightarrow> string \<Rightarrow> bool \<Rightarrow> string io" where
  "getCustomGitCloneCommand E entity logPath isCompose =
     (if falsy (customGitUrl entity) \<or> falsy (customGitBranch entity)
      then
        let command = missing_reference_command logPath
        in bind (await (ExecAsyncRemote (serverId entity) command) (execAsyncRemote E (serverId entity) command))
             (\<lambda>_. throw repository_not_found)
      else
        let url = tpl (customGitUrl entity);
            branch = tpl (customGitBranch entity);
            keyId = customGitSSHKeyId entity;
            keyPath = keyPath_of E True keyId;
            outputPath = outputPath_of E True isCompose (appName entity);
            knownHostsPath = knownHostsPath_of E True
        in bind (touch_key E keyId) (\<lambda>_.
             try_catch
               (lift_result (custom_git_script E url branch keyId keyPath outputPath knownHostsPath logPath))
               (\<lambda>error. bind (emit (ConsoleLog (error_to_string error))) (\<lambda>_. throw error))))"

definition raw_clone_args :: "string \<Rightarrow> string \<Rightarrow> string \<Rightarrow> string list" where
  "raw_clone_args branch url outputPath =
     [''clone'', ''--branch'', branch, ''--depth'', ''1'', url, outputPath, ''--progress'']"

definition cloneGitRawRepository :: "env \<Rightarrow> git_entity \<Rightarrow> unit io" where
  "cloneGitRawRepository E entity =
     (if falsy (customGitUrl entity) \<or> falsy (customGitBranch entity)
      then throw repository_not_found
      else
        let url = tpl (customGitUrl entity);
            branch = tpl (customGitBranch entity);
            keyId = customGitSSHKeyId entity;
            keyPath = keyPath_of E False keyId;
            outputPath = outputPath_of E False True (appName entity);
            knownHostsPath = knownHostsPath_of E False
        in try_catch
             (steps
                [addHostToKnownHosts E url,
                 await (RecreateDirectory outputPath) (recreateDirectory E outputPath),
                 touch_key E keyId,
                 spawn E ''git'' (raw_clone_args branch url outputPath) (\<lambda>data. ret ())
                   (spawn_env E keyId keyPath knownHostsPath)])
             (\<lambda>error. throw error))"

definition raw_remote_clone_block :: "string \<Rightarrow> string \<Rightarrow> string \<Rightarrow> string" where
  "raw_remote_clone_block branch url outputPath =
     ''if ! '' @ join_with '' '' (remote_clone_words branch url outputPath) @ '' ; then'' @ NL
       @ TAB @ TAB @ TAB @ TAB @ ''echo '' @ DQ @ ''[ERROR] Fail to clone the repository '' @ DQ @ '';'' @ NL
       @ TAB @ TAB @ TAB @ TAB @ ''exit 1;'' @ NL
       @ TAB @ TAB @ TAB @ ''fi'' @ NL
       @ TAB @ TAB @ TAB"

definition raw_remote_script :: "env \<Rightarrow> string \<Rightarrow> string \<Rightarrow> ostring \<Rightarrow> string \<Rightarrow> string \<Rightarrow> string \<Rightarrow> error + string" where
  "raw_remote_script E url branch keyId keyPath outputPath knownHostsPath =
     (case (if \<not> isHttpOrHttps url then map_sum id (\<lambda>c. [c]) (addHostToKnownHostsCommand E url) else Inr []) of
        Inl e \<Rightarrow> Inl e
      | Inr scan \<Rightarrow>
          Inr (join_with NL
            (scan
             @ [''rm -rf '' @ outputPath @ '';'', ''mkdir -p '' @ outputPath @ '';'']
             @ (if truthy keyId then [git_ssh_assignment keyPath knownHostsPath] else [])
             @ [raw_remote_clone_block branch url outputPath])))"

definition cloneRawGitRepositoryRemote :: "env \<Rightarrow> remote_entity \<Rightarrow> unit io" where
  "cloneRawGitRepositoryRemote E compose =
     (if falsy (serverId compose) then throw (TRPCError ''NOT_FOUND'' ''Server not found'')
      else if falsy (customGitUrl compose) then throw (TRPCError ''NOT_FOUND'' ''Git Provider not found'')
      else
        let url = tpl (customGitUrl compose);
            branch = tpl (customGitBranch compose);
            keyId = customGitSSHKeyId compose;
            keyPath = keyPath_of E True keyId;
            outputPath = outputPath_of E True True (appName compose);
            knownHostsPath = knownHostsPath_of E True
        in bind (touch_key E keyId) (\<lambda>_.
             try_catch
               (bind (lift_result (raw_remote_script E url branch keyId keyPath outputPath knownHostsPath))
                  (\<lambda>script. await (ExecAsyncRemote (serverId compose) script)
                               (execAsyncRemote E (serverId compose) script)))
               (\<lambda>error. throw error)))"

subsection \<open>Vocabulary of the statements\<close>

text \<open>\<^verbatim>\<open>s.startsWith(p)\<close> and \<^verbatim>\<open>s.includes(p)\<close>.\<close>

fun startsWith :: "string \<Rightarrow> string \<Rightarrow> bool" where
  "startsWith s [] = True"
| "startsWith [] (p # ps) = False"
| "startsWith (c # cs) (p # ps) = (c = p \<and> startsWith cs ps)"

fun str_includes :: "string \<Rightarrow> string \<Rightarrow> bool" where
  "str_includes [] p = (p = [])"
| "str_includes (c # cs) p = (startsWith (c # cs) p \<or> str_includes cs p)"

text \<open>The texts written to the log sink, in order.\<close>

fun written :: "event list \<Rightarrow> string list" where
  "written [] = []"
| "written (Write t # evs) = t # written evs"
| "written (ev # evs) = written evs"

fun is_spawn :: "event \<Rightarrow> bool" where
  "is_spawn (SpawnAsync c a e) = True"
| "is_spawn ev = False"

text \<open>What the steps before the clone child process come to, read off the collaborators.\<close>

definition scan_outcome :: "env \<Rightarrow> string \<Rightarrow> error option" where
  "scan_outcome E url =
     (if isHttpOrHttps url then None
      else case sanitizeRepoPathSSH url of
             Inl e \<Rightarrow> Some e
           | Inr l \<Rightarrow> execAsync E (keyscan_command E l))"

definition touch_outcome :: "env \<Rightarrow> ostring \<Rightarrow> error option" where
  "touch_outcome E keyId = (if truthy keyId then updateSSHKeyById E (tpl keyId) (now_iso E) else None)"

text \<open>An environment in which every collaborator succeeds, and variations of it.\<close>

definition quiet_paths :: "bool \<Rightarrow> paths_t" where
  "quiet_paths isServer =
     \<lparr>SSH_PATH = ''/etc/dokploy/ssh'', COMPOSE_PATH = ''/etc/dokploy/compose'',
      APPLICATIONS_PATH = ''/etc/dokploy/applications''\<rparr>"

definition quiet_env :: env where
  "quiet_env =
     \<lparr>paths = quiet_paths, path_join = join_with ''/'', now_iso = ''2024-05-01T10:00:00.000Z'',
      process_env = [], execAsync = (\<lambda>c. None), recreateDirectory = (\<lambda>p. None),
      updateSSHKeyById = (\<lambda>k t. None), spawnAsync = (\<lambda>c a e. ([], None)),
      execAsyncRemote = (\<lambda>sv c. None)\<rparr>"

text \<open>The events of the host-key scan and of the key bookkeeping, as the run records them.\<close>

definition scan_trace :: "env \<Rightarrow> string \<Rightarrow> event list" where
  "scan_trace E url =
     (if isHttpOrHttps url then []
      else case sanitizeRepoPathSSH url of
             Inl e \<Rightarrow> []
           | Inr l \<Rightarrow> ExecAsync (keyscan_command E l)
                # (case execAsync E (keyscan_command E l) of
                     None \<Rightarrow> []
                   | Some e \<Rightarrow> [ConsoleError (''Error adding host to known_hosts: '' @ error_to_string e)]))"

definition touch_trace :: "env \<Rightarrow> ostring \<Rightarrow> event list" where
  "touch_trace E keyId = (if truthy keyId then [UpdateSSHKeyById (tpl keyId) (now_iso E)] else [])"

definition demo_entity :: git_entity where
  "demo_entity =
     \<lparr>appName = ''app'', customGitUrl = Str ''https://github.com/owner/repo.git'',
      customGitBranch = Str ''main'', customGitSSHKeyId = Undefined\<rparr>"

definition demo_remote_entity :: remote_entity where
  "demo_remote_entity =
     \<lparr>appName = ''app'', customGitUrl = Str ''https://github.com/owner/repo.git'',
      customGitBranch = Str ''main'', customGitSSHKeyId = Undefined, serverId = Str ''srv-1''\<rparr>"

definition entity_without_branch :: remote_entity where
  "entity_without_branch =
     \<lparr>appName = ''app'', customGitUrl = Str ''https://github.com/owner/repo.git'',
      customGitBranch = Undefined, customGitSSHKeyId = Undefined, serverId = Str ''srv-1''\<rparr>"

definition keyed_entity :: git_entity where
  "keyed_entity =
     \<lparr>appName = ''app'', customGitUrl = Str ''git@github.com:owner/repo.git'',
      customGitBranch = Str ''main'', customGitSSHKeyId = Str ''key-1''\<rparr>"

text \<open>The clone child process exits with a non-zero status.\<close>

definition failing_clone_env :: env where
  "failing_clone_env =
     quiet_env\<lparr>spawnAsync :=
       (\<lambda>c a e. ([''fatal: repository not found''], Some (JsError ''Command failed with exit code 128'')))\<rparr>"



text \<open>The key store rejects the bookkeeping update.\<close>

definition key_store_down_env :: env where
  "key_store_down_env = quiet_env\<lparr>updateSSHKeyById := (\<lambda>k t. Some (JsError ''connection refused''))\<rparr>"

text \<open>
  The remote-execution collaborator surfaces a failure when the script it runs exits with
  a non-zero status, as the script for a missing reference does.
\<close>

definition exit_status_env :: env where
  "exit_status_env =
     quiet_env\<lparr>execAsyncRemote :=
       (\<lambda>sv c. if c = missing_reference_command ''/var/log/app.log''
                then Some (JsError ''Command exited with code 1'') else None)\<rparr>"

subsection \<open>Vocabulary of the parser's properties\<close>

text \<open>
  The length of the longest run of steps a one-character pattern can take from the start of
  a string, the state after \<open>k\<close> characters, and the same state with a capture of those
  characters.
\<close>

fun run :: "(string \<Rightarrow> bool) \<Rightarrow> string \<Rightarrow> nat" where
  "run P [] = 0"
| "run P (c # cs) = (if P (c # cs) then Suc (run P cs) else 0)"

definition skip :: "nat \<Rightarrow> mstate \<Rightarrow> mstate" where
  "skip k s = s\<lparr>rest := drop k (rest s)\<rparr>"

definition cap_skip :: "string \<Rightarrow> nat \<Rightarrow> mstate \<Rightarrow> mstate" where
  "cap_skip g k s = s\<lparr>rest := drop k (rest s), caps := (caps s)(g \<mapsto> take k (rest s))\<rparr>"

fun bmin :: "bound \<Rightarrow> nat \<Rightarrow> nat" where
  "bmin (Fin m) k = min m k"
| "bmin Inf k = k"

fun ble :: "nat \<Rightarrow> bound \<Rightarrow> bool" where
  "ble k (Fin m) = (k \<le> m)"
| "ble k Inf = True"

text \<open>
  A pattern without groups that consumes exactly one character, when the predicate \<open>P\<close>
  holds of the input left, and fails otherwise.
\<close>

definition unit_step :: "bool \<Rightarrow> nat \<Rightarrow> re \<Rightarrow> (string \<Rightarrow> bool) \<Rightarrow> bool" where
  "unit_step ic n b P =
     (group_names b = [] \<and> (\<forall>s. matcher ic n b s = (if rest s \<noteq> [] \<and> P (rest s) then [advance s] else [])))"

definition hdp :: "(char \<Rightarrow> bool) \<Rightarrow> string \<Rightarrow> bool" where
  "hdp p xs = p (hd xs)"

text \<open>The character classes of the reference pattern, with the flag \<^verbatim>\<open>i\<close>.\<close>

definition cls_any :: "bool \<Rightarrow> cls list \<Rightarrow> char \<Rightarrow> bool" where
  "cls_any ic cs c = list_ex (\<lambda>k. cls_match ic k c) cs"

definition is_letter :: "char \<Rightarrow> bool" where
  "is_letter c = (in_range (CHR ''a'') (CHR ''z'') c \<or> in_range (CHR ''A'') (CHR ''Z'') c)"

definition sepc :: "char \<Rightarrow> bool" where
  "sepc c = cls_any True [CChar (CHR ''/''), CChar (CHR '':'')] c"

definition segc :: "char \<Rightarrow> bool" where
  "segc c = (\<not> cls_any True seg_chars c)"

definition repoA :: "char \<Rightarrow> bool" where
  "repoA c = (\<not> cls_any True [CSpace, CChar (CHR ''?''), CChar (CHR ''#''), CChar (CHR '':''), CChar (CHR ''.'')] c)"

definition repoc :: "char \<Rightarrow> bool" where
  "repoc c = (repoA c \<or> c = CHR ''.'')"

definition digc :: "char \<Rightarrow> bool" where
  "digc c = cls_any True [CRange (CHR ''0'') (CHR ''9'')] c"

definition azc :: "char \<Rightarrow> bool" where
  "azc c = cls_any True [CRange (CHR ''a'') (CHR ''z'')] c"

definition uhc :: "char \<Rightarrow> bool" where
  "uhc c = cls_any True [CRange (CHR ''a'') (CHR ''z''), CChar (CHR ''_'')] c"

definition utc :: "char \<Rightarrow> bool" where
  "utc c = cls_any True [CRange (CHR ''a'') (CHR ''z''), CRange (CHR ''0'') (CHR ''9''),
                         CChar (CHR ''_''), CChar (CHR ''-'')] c"

definition user_str :: "string \<Rightarrow> bool" where
  "user_str u = (\<exists>c t. u = c # t \<and> uhc c \<and> t \<noteq> [] \<and> list_all utc t)"

text \<open>
  The strings on which the end of the pattern matches: \<^verbatim>\<open>\/?\s*$\<close>, the lookahead
  \<^verbatim>\<open>git\/?\s*$\<close>, the last piece \<^verbatim>\<open>(?:.git)?\/?\s*$\<close>, one step of the repository group, and
  the repository piece followed by the last piece.
\<close>

definition slash_ws_end :: "string \<Rightarrow> bool" where
  "slash_ws_end xs = (list_all is_space xs \<or> (\<exists>t. xs = CHR ''/'' # t \<and> list_all is_space t))"

definition is_git :: "char \<Rightarrow> char \<Rightarrow> char \<Rightarrow> bool" where
  "is_git a b c = (lit_match True (CHR ''g'') a \<and> lit_match True (CHR ''i'') b \<and> lit_match True (CHR ''t'') c)"

definition git_end :: "string \<Rightarrow> bool" where
  "git_end xs = (\<exists>a b c t. xs = a # b # c # t \<and> is_git a b c \<and> slash_ws_end t)"

definition tail_ok :: "string \<Rightarrow> bool" where
  "tail_ok xs =
     (slash_ws_end xs
      \<or> (\<exists>d a b c t. xs = d # a # b # c # t \<and> \<not> is_line_terminator d \<and> is_git a b c \<and> slash_ws_end t))"

definition repo_step :: "string \<Rightarrow> bool" where
  "repo_step xs = (repoA (hd xs) \<or> (hd xs = CHR ''.'' \<and> \<not> git_end (tl xs)))"

definition t7_ok :: "string \<Rightarrow> bool" where
  "t7_ok xs = (\<exists>c t k. xs = c # t \<and> sepc c \<and> 1 \<le> k \<and> k \<le> run repo_step t \<and> tail_ok (drop k t))"

text \<open>The shape of the captures of a match, and the object the parser builds from them.\<close>

definition wf_caps :: "(string \<rightharpoonup> string) \<Rightarrow> bool" where
  "wf_caps m =
     ((\<forall>u. m ''user'' = Some u \<longrightarrow> user_str u)
      \<and> (\<exists>d. m ''domain'' = Some d \<and> d \<noteq> [] \<and> list_all segc d)
      \<and> (\<forall>p. m ''port'' = Some p \<longrightarrow> p \<noteq> [] \<and> length p \<le> 5 \<and> list_all digc p)
      \<and> (\<forall>ow. m ''owner'' = Some ow \<longrightarrow> ow \<noteq> [] \<and> list_all segc ow)
      \<and> (\<exists>r. m ''repo'' = Some r \<and> r \<noteq> [] \<and> list_all repoc r))"

definition location_of :: "(string \<rightharpoonup> string) \<Rightarrow> ssh_location" where
  "location_of groups =
     \<lparr>user = (case groups ''user'' of None \<Rightarrow> ''git'' | Some u \<Rightarrow> u),
      domain = group_or_undefined groups ''domain'',
      port = (case groups ''port'' of None \<Rightarrow> 22 | Some p \<Rightarrow> Number_digits p),
      owner = (case groups ''owner'' of None \<Rightarrow> [] | Some v \<Rightarrow> v),
      repo = group_or_undefined groups ''repo''\<rparr>"

section \<open>Properties of the matcher\<close>

lemma clear_caps_Nil [simp]: "clear_caps [] s = s"
  by (simp add: clear_caps_def)

lemma skip_0 [simp]: "skip 0 s = s"
  by (simp add: skip_def)

lemma skip_advance: "skip k (advance s) = skip (Suc k) s"
  by (simp add: skip_def advance_def drop_Suc)

lemma rev_upt_step: "mn \<le> Suc m \<Longrightarrow> rev [mn..<Suc (Suc m)] = Suc m # rev [mn..<Suc m]"
  by simp

lemma rep_unit:
  assumes u: "unit_step ic n b P"
  shows "ble mn mx \<Longrightarrow> matcher ic n (Rep mn mx b) s = map (\<lambda>k. skip k s) (rev [mn..<Suc (bmin mx (run P (rest s)))])"
proof (induction "rest s" arbitrary: s mn mx)
  case Nil
  from u have b: "matcher ic n b s = []" and g: "group_names b = []"
    using Nil(1) by (auto simp: unit_step_def)
  show ?case
  proof (cases "mx = Fin 0")
    case True
    with Nil(2) show ?thesis by (simp add: matcher.simps(9))
  next
    case False
    then show ?thesis
      using Nil(1)[symmetric] b g by (cases mx) (auto simp: matcher.simps(9))
  qed
next
  case (Cons c cs)
  from u have g: "group_names b = []" by (simp add: unit_step_def)
  from u have b: "matcher ic n b s = (if P (rest s) then [advance s] else [])"
    using Cons(2)[symmetric] by (auto simp: unit_step_def)
  have rs: "rest (advance s) = cs"
    using Cons(2)[symmetric] by (simp add: advance_def)
  show ?case
  proof (cases "mx = Fin 0")
    case True
    with Cons(3) show ?thesis by (simp add: matcher.simps(9))
  next
    case mx: False
    show ?thesis
    proof (cases "P (rest s)")
      case False
      then show ?thesis
        using mx b g Cons(2)[symmetric] by (cases mx) (auto simp: matcher.simps(9))
    next
      case True
      have le: "ble (mn - 1) (dec mx)"
        using Cons(3) by (cases mx) auto
      have ih: "matcher ic n (Rep (mn - 1) (dec mx) b) (advance s) =
                  map (\<lambda>k. skip k (advance s)) (rev [mn - 1..<Suc (bmin (dec mx) (run P cs))])"
        using Cons(1)[OF rs[symmetric] le] rs by simp
      have run: "run P (rest s) = Suc (run P cs)"
        using True Cons(2)[symmetric] by simp
      have bm: "bmin mx (Suc (run P cs)) = Suc (bmin (dec mx) (run P cs))"
        using mx by (cases mx) auto
      have mle: "mn - 1 \<le> bmin (dec mx) (run P cs) \<or> bmin (dec mx) (run P cs) < mn - 1" by auto
      have sm: "map (\<lambda>k. skip k (advance s)) (rev [mn - 1..<Suc (bmin (dec mx) (run P cs))])
                 = map (\<lambda>k. skip k s) (rev [Suc (mn - 1)..<Suc (Suc (bmin (dec mx) (run P cs)))])"
        by (simp add: skip_advance map_Suc_upt[symmetric] rev_map del: upt_Suc)
      have "matcher ic n (Rep mn mx b) s =
              matcher ic n (Rep (mn - 1) (dec mx) b) (advance s) @ (if mn \<noteq> 0 then [] else [s])"
        using mx b g True Cons(2)[symmetric] by (simp add: matcher.simps(9) advance_def)
      also have "\<dots> = map (\<lambda>k. skip k s) (rev [mn..<Suc (Suc (bmin (dec mx) (run P cs)))])"
      proof (cases mn)
        case 0
        have "[0..<Suc (Suc (bmin (dec mx) (run P cs)))] = 0 # [Suc 0..<Suc (Suc (bmin (dec mx) (run P cs)))]"
          by (rule upt_conv_Cons) simp
        then show ?thesis
          using 0 ih sm by simp
      next
        case (Suc m)
        then show ?thesis using ih sm by simp
      qed
      finally show ?thesis
        by (simp only: run bm)
    qed
  qed
qed

lemma swap_case_letter: "is_letter (swap_case c) = is_letter c"
  by (auto simp: swap_case_def is_letter_def in_range_def)

lemma swap_case_other: "\<not> is_letter c \<Longrightarrow> swap_case c = c"
  by (auto simp: swap_case_def is_letter_def)

lemma lit_match_other: "\<not> is_letter a \<Longrightarrow> lit_match ic a c = (c = a)"
  using swap_case_letter[of c] swap_case_other[of c] by (auto simp: lit_match_def)

lemma frame:
  "y \<in> set (matcher ic n r s) \<Longrightarrow> g \<notin> set (group_names r) \<Longrightarrow> caps y g = caps s g"
proof (induction ic n r s arbitrary: y rule: matcher.induct)
  case (9 ic n mn mx r s)
  show ?case
  proof (cases "mx = Fin 0")
    case True
    with 9(3) show ?thesis by (simp add: matcher.simps(9))
  next
    case False
    have "y \<in> set (concat (map (matcher ic n (Rep (mn - 1) (dec mx) r))
             (filter (\<lambda>y. mn \<noteq> 0 \<or> length (rest y) < length (rest s))
                (matcher ic n r (clear_caps (group_names r) s))))
           @ (if mn \<noteq> 0 then [] else [s]))"
      using 9(3) False by (simp only: matcher.simps(9) if_False)
    then consider
        (a) x where "x \<in> set (matcher ic n r (clear_caps (group_names r) s))"
                    "mn \<noteq> 0 \<or> length (rest x) < length (rest s)"
                    "y \<in> set (matcher ic n (Rep (mn - 1) (dec mx) r) x)"
      | (b) "y = s"
      by (auto split: if_splits)
    then show ?thesis
    proof cases
      case a
      have "caps x g = caps (clear_caps (group_names r) s) g"
        using 9(1)[OF False a(1)] 9(4) by simp
      moreover have "caps y g = caps x g"
        using 9(2)[OF False _ a(3)] a(1,2) 9(4) by simp
      ultimately show ?thesis using 9(4) by (simp add: clear_caps_def)
    next
      case b
      then show ?thesis by simp
    qed
  qed
next
  case (7 ic n r1 r2 s)
  from 7(3) obtain x where x: "x \<in> set (matcher ic n r1 s)" "y \<in> set (matcher ic n r2 x)"
    by auto
  have "caps x g = caps s g" using 7(1)[OF x(1)] 7(4) by simp
  moreover have "caps y g = caps x g" using 7(2)[OF x(1) x(2)] 7(4) by simp
  ultimately show ?case by simp
next
  case (8 ic n r1 r2 s)
  then show ?case by auto
next
  case (10 ic n g' r s)
  from 10(2) obtain x where x: "x \<in> set (matcher ic n r s)" "y = set_cap g' s x"
    by auto
  have "caps x g = caps s g" using 10(1)[OF x(1)] 10(3) by simp
  then show ?case using x(2) 10(3) by (simp add: set_cap_def)
next
  case (11 ic n r s)
  then show ?case by (simp split: if_splits)
qed (auto simp: one_char_def advance_def split: list.splits if_splits)

subsection \<open>Runs\<close>

lemma run_le: "run P xs \<le> length xs"
  by (induction xs) auto

lemma run_P: "i < run P xs \<Longrightarrow> P (drop i xs) \<and> drop i xs \<noteq> []"
proof (induction xs arbitrary: i)
  case Nil
  then show ?case by simp
next
  case (Cons c cs)
  then show ?case by (cases i) (auto split: if_splits)
qed

lemma run_drop: "m \<le> run P xs \<Longrightarrow> run P (drop m xs) = run P xs - m"
proof (induction xs arbitrary: m)
  case Nil
  then show ?case by simp
next
  case (Cons c cs)
  then show ?case by (cases m) (auto split: if_splits)
qed

lemma run_eq:
  "(\<forall>i<length w. P (drop i w @ t)) \<Longrightarrow> t = [] \<or> \<not> P t \<Longrightarrow> run P (w @ t) = length w"
proof (induction w)
  case Nil
  then show ?case by (cases t) auto
next
  case (Cons c w)
  have "P ((c # w) @ t)" using Cons(2) by force
  moreover have "\<forall>i<length w. P (drop i w @ t)"
  proof (intro allI impI)
    fix i assume "i < length w"
    then have "P (drop (Suc i) (c # w) @ t)" using Cons(2) by (metis Suc_less_eq length_Cons)
    then show "P (drop i w @ t)" by simp
  qed
  ultimately show ?case using Cons by simp
qed

lemma run_ge: "j \<le> length xs \<Longrightarrow> (\<forall>i<j. P (drop i xs)) \<Longrightarrow> j \<le> run P xs"
proof (induction xs arbitrary: j)
  case Nil
  then show ?case by simp
next
  case (Cons c cs)
  show ?case
  proof (cases j)
    case 0
    then show ?thesis by simp
  next
    case (Suc j')
    have p: "P (c # cs)" using Cons(3) Suc by force
    have "\<forall>i<j'. P (drop i cs)"
    proof (intro allI impI)
      fix i assume "i < j'"
      then have "P (drop (Suc i) (c # cs))" using Cons(3) Suc by blast
      then show "P (drop i cs)" by simp
    qed
    then have "j' \<le> run P cs" using Cons(1)[of j'] Cons(2) Suc by simp
    then show ?thesis using p Suc by simp
  qed
qed

subsection \<open>Pieces of a pattern\<close>

lemma unit_Cls: "unit_step ic n (Cls cs) (\<lambda>xs. cls_any ic cs (hd xs))"
  by (auto simp: unit_step_def one_char_def cls_any_def split: list.splits)

lemma unit_NCls: "unit_step ic n (NCls cs) (\<lambda>xs. \<not> cls_any ic cs (hd xs))"
  by (auto simp: unit_step_def one_char_def cls_any_def split: list.splits)

lemma set_cap_skip: "k \<le> length (rest s) \<Longrightarrow> set_cap g s (skip k s) = cap_skip g k s"
  by (simp add: set_cap_def skip_def cap_skip_def min_absorb2)

lemma grp_rep:
  assumes "unit_step ic n b P" and "ble mn mx"
  shows "matcher ic n (Grp g (Rep mn mx b)) s =
           map (\<lambda>k. cap_skip g k s) (rev [mn..<Suc (bmin mx (run P (rest s)))])"
proof -
  have "bmin mx (run P (rest s)) \<le> length (rest s)"
    using run_le[of P "rest s"] by (cases mx) auto
  then have "\<forall>k\<in>set (rev [mn..<Suc (bmin mx (run P (rest s)))]). set_cap g s (skip k s) = cap_skip g k s"
    by (auto intro!: set_cap_skip)
  then show ?thesis
    by (simp add: rep_unit[OF assms] del: upt_Suc)
qed

lemma opt_eq:
  "matcher ic n (Rep 0 (Fin (Suc 0)) b) s =
     filter (\<lambda>y. length (rest y) < length (rest s)) (matcher ic n b (clear_caps (group_names b) s)) @ [s]"
proof -
  have "matcher ic n (Rep 0 (Fin 0) b) = (\<lambda>y. [y])"
    by (rule ext) (simp add: matcher.simps(9))
  then show ?thesis
    by (simp add: matcher.simps(9)[of ic n 0 "Fin (Suc 0)"])
qed

lemma seq_lit:
  "matcher ic n (Seq (Lit a) r) s =
     (case rest s of [] \<Rightarrow> [] | c # cs \<Rightarrow> if lit_match ic a c then matcher ic n r (s\<lparr>rest := cs\<rparr>) else [])"
  by (simp add: one_char_def advance_def split: list.splits)

lemma seq_cls:
  "matcher ic n (Seq (Cls ks) r) s =
     (case rest s of [] \<Rightarrow> [] | c # cs \<Rightarrow> if cls_any ic ks c then matcher ic n r (s\<lparr>rest := cs\<rparr>) else [])"
  by (simp add: one_char_def advance_def cls_any_def split: list.splits)

lemma seq_dot:
  "matcher ic n (Seq Dot r) s =
     (case rest s of [] \<Rightarrow> [] | c # cs \<Rightarrow> if \<not> is_line_terminator c then matcher ic n r (s\<lparr>rest := cs\<rparr>) else [])"
  by (simp add: one_char_def advance_def split: list.splits)

lemma lit_last:
  "matcher ic n (Lit a) s =
     (case rest s of [] \<Rightarrow> [] | c # cs \<Rightarrow> if lit_match ic a c then [s\<lparr>rest := cs\<rparr>] else [])"
  by (simp add: one_char_def advance_def split: list.splits)

subsection \<open>Characters\<close>

lemma not_letter_punct:
  "\<not> is_letter (CHR ''/'')" "\<not> is_letter (CHR '':'')" "\<not> is_letter (CHR ''?'')" "\<not> is_letter (CHR ''#'')"
  "\<not> is_letter (CHR ''.'')" "\<not> is_letter (CHR ''_'')" "\<not> is_letter (CHR ''-'')" "\<not> is_letter (CHR ''@'')"
  by (simp_all add: is_letter_def in_range_def)

lemmas lit_punct = not_letter_punct [THEN lit_match_other]

lemma sepc_iff: "sepc c = (c = CHR ''/'' \<or> c = CHR '':'')"
  by (simp add: sepc_def cls_any_def lit_punct)

lemma segc_iff: "segc c = (\<not> is_space c \<and> c \<noteq> CHR ''/'' \<and> c \<noteq> CHR ''?'' \<and> c \<noteq> CHR ''#'' \<and> c \<noteq> CHR '':'')"
  by (simp add: segc_def seg_chars_def cls_any_def lit_punct)

lemma repoA_iff: "repoA c = (\<not> is_space c \<and> c \<noteq> CHR ''?'' \<and> c \<noteq> CHR ''#'' \<and> c \<noteq> CHR '':'' \<and> c \<noteq> CHR ''.'')"
  by (simp add: repoA_def cls_any_def lit_punct)

lemma letter_not_digit: "is_letter c \<Longrightarrow> \<not> in_range (CHR ''0'') (CHR ''9'') c"
  by (auto simp: is_letter_def in_range_def)

lemma digc_iff: "digc c = in_range (CHR ''0'') (CHR ''9'') c"
  using swap_case_letter[of c] swap_case_other[of c] letter_not_digit[of "swap_case c"]
  by (auto simp: digc_def cls_any_def)

lemma utc_not_at: "utc c \<Longrightarrow> c \<noteq> CHR ''@''"
  by (auto simp: utc_def cls_any_def lit_punct swap_case_def in_range_def split: if_splits)

lemma digc_not_slash: "digc c \<Longrightarrow> c \<noteq> CHR ''/''"
  by (auto simp: digc_iff in_range_def)

subsection \<open>The end of the pattern\<close>

lemma seq_nonempty:
  "(matcher ic n (Seq a b) s \<noteq> []) = (\<exists>x\<in>set (matcher ic n a s). matcher ic n b x \<noteq> [])"
  by simp

lemma run_all: "(run (\<lambda>xs. p (hd xs)) xs = length xs) = list_all p xs"
proof (induction xs)
  case Nil
  then show ?case by simp
next
  case (Cons c cs)
  show ?case
    using Cons run_le[of "\<lambda>xs. p (hd xs)" cs] by auto
qed

lemma ws_eol_iff:
  "(matcher ic n (Seq (Rep 0 Inf (Cls [CSpace])) Eol) s \<noteq> []) = list_all is_space (rest s)"
proof -
  let ?P = "\<lambda>xs. cls_any ic [CSpace] (hd xs)"
  have r: "matcher ic n (Rep 0 Inf (Cls [CSpace])) s = map (\<lambda>k. skip k s) (rev [0..<Suc (run ?P (rest s))])"
    using rep_unit[OF unit_Cls, of 0 Inf ic n "[CSpace]" s] by simp
  have "(matcher ic n (Seq (Rep 0 Inf (Cls [CSpace])) Eol) s \<noteq> []) =
          (\<exists>k\<le>run ?P (rest s). drop k (rest s) = [])"
    unfolding seq_nonempty r by (auto simp: skip_def less_Suc_eq_le)
  also have "\<dots> = (run ?P (rest s) = length (rest s))"
    using run_le[of ?P "rest s"] by auto
  also have "\<dots> = list_all is_space (rest s)"
  proof -
    have "cls_any ic [CSpace] = is_space"
      by (rule ext) (simp add: cls_any_def)
    then show ?thesis
      using run_all[of "cls_any ic [CSpace]" "rest s"] by simp
  qed
  finally show ?thesis .
qed

lemma slash_ws_iff:
  "(matcher ic n (Seq (Rep 0 (Fin (Suc 0)) (Lit (CHR ''/''))) (Seq (Rep 0 Inf (Cls [CSpace])) Eol)) s \<noteq> [])
     = slash_ws_end (rest s)"
  unfolding seq_nonempty[of ic n "Rep 0 (Fin (Suc 0)) (Lit (CHR ''/''))"] opt_eq
  by (cases "rest s")
     (auto simp: ws_eol_iff slash_ws_end_def one_char_def advance_def lit_punct
           simp del: matcher.simps(7) split: if_splits)

lemma git_end_iff: "(matcher True n re_git_end s \<noteq> []) = git_end (rest s)"
proof -
  have "(matcher True n re_git_end s \<noteq> []) =
          (\<exists>a b c t. rest s = a # b # c # t \<and> is_git a b c \<and>
             matcher True n (Seq (Rep 0 (Fin (Suc 0)) (Lit (CHR ''/''))) (Seq (Rep 0 Inf (Cls [CSpace])) Eol))
               (s\<lparr>rest := t\<rparr>) \<noteq> [])"
    unfolding re_git_end_def
    by (simp add: seq_lit is_git_def del: matcher.simps(7) split: list.splits)
  then show ?thesis
    by (simp add: slash_ws_iff git_end_def del: matcher.simps(7))
qed

lemma tail_iff: "(matcher True n re_tail s \<noteq> []) = tail_ok (rest s)"
proof -
  let ?R = "Seq (Rep 0 (Fin (Suc 0)) (Lit (CHR ''/''))) (Seq (Rep 0 Inf (Cls [CSpace])) Eol)"
  let ?B = "Seq Dot (Seq (Lit (CHR ''g'')) (Seq (Lit (CHR ''i'')) (Lit (CHR ''t''))))"
  have b: "matcher True n ?B s =
             (case rest s of d # a # b # c # t \<Rightarrow>
                if \<not> is_line_terminator d \<and> is_git a b c then [s\<lparr>rest := t\<rparr>] else []
              | _ \<Rightarrow> [])"
    by (simp add: seq_dot seq_lit lit_last is_git_def del: matcher.simps split: list.splits)
  have g: "group_names ?B = []" by simp
  have "(matcher True n re_tail s \<noteq> []) =
          (matcher True n ?R s \<noteq> [] \<or>
           (\<exists>x\<in>set (matcher True n ?B s). length (rest x) < length (rest s) \<and> matcher True n ?R x \<noteq> []))"
    unfolding re_tail_def One_nat_def seq_nonempty[of True n "Rep 0 (Fin (Suc 0)) ?B"] opt_eq g
    by (auto simp del: matcher.simps)
  also have "\<dots> = tail_ok (rest s)"
  proof -
    define xs where "xs = rest s"
    show ?thesis
      unfolding slash_ws_iff b xs_def[symmetric]
      by (auto simp: tail_ok_def split: list.splits)
  qed
  finally show ?thesis .
qed

lemma unit_repo_char: "unit_step True n re_repo_char repo_step"
proof -
  have "matcher True n re_repo_char s = (if rest s \<noteq> [] \<and> repo_step (rest s) then [advance s] else [])" for s
  proof (cases "rest s")
    case Nil
    then show ?thesis by (simp add: re_repo_char_def one_char_def)
  next
    case (Cons c cs)
    have "matcher True n (NLook re_git_end) (advance s) = (if git_end cs then [] else [advance s])"
      using git_end_iff[of n "advance s"] Cons by (auto simp: advance_def)
    then show ?thesis
      using Cons
      by (auto simp: re_repo_char_def one_char_def repo_step_def repoA_def cls_any_def lit_punct
               simp del: matcher.simps(11))
  qed
  then show ?thesis
    by (simp add: unit_step_def re_repo_char_def re_git_end_def)
qed

subsection \<open>The pieces of the reference pattern\<close>

lemma unit_seg: "unit_step True n (NCls seg_chars) (hdp segc)"
  using unit_NCls[of True n seg_chars] by (simp add: segc_def hdp_def[abs_def])

lemma unit_dig: "unit_step True n (Cls [CRange (CHR ''0'') (CHR ''9'')]) (hdp digc)"
  using unit_Cls[of True n "[CRange (CHR ''0'') (CHR ''9'')]"] by (simp add: digc_def[abs_def] hdp_def[abs_def])

lemma unit_ut:
  "unit_step True n (Cls [CRange (CHR ''a'') (CHR ''z''), CRange (CHR ''0'') (CHR ''9''),
                          CChar (CHR ''_''), CChar (CHR ''-'')]) (hdp utc)"
  using unit_Cls[of True n "[CRange (CHR ''a'') (CHR ''z''), CRange (CHR ''0'') (CHR ''9''),
                          CChar (CHR ''_''), CChar (CHR ''-'')]"]
  by (simp add: utc_def[abs_def] hdp_def[abs_def])

lemma unit_az: "unit_step True n (Cls [CRange (CHR ''a'') (CHR ''z'')]) (hdp azc)"
  using unit_Cls[of True n "[CRange (CHR ''a'') (CHR ''z'')]"] by (simp add: azc_def[abs_def] hdp_def[abs_def])

lemma unit_ws: "unit_step True n (Cls [CSpace]) (hdp is_space)"
  using unit_Cls[of True n "[CSpace]"] by (simp add: cls_any_def hdp_def[abs_def])

lemma cap_skip_rest_clear:
  "cap_skip g k (clear_caps [g] s\<lparr>rest := t\<rparr>) = cap_skip g k (s\<lparr>rest := t\<rparr>)"
  by (simp add: cap_skip_def clear_caps_def fun_eq_iff)

lemma stage_repo:
  "matcher True n re_repo s =
     (case rest s of [] \<Rightarrow> []
      | c # t \<Rightarrow> if sepc c then map (\<lambda>k. cap_skip ''repo'' k (s\<lparr>rest := t\<rparr>)) (rev [1..<Suc (run repo_step t)])
                 else [])"
  unfolding re_repo_def re_sep_def seq_cls
  by (simp add: grp_rep[OF unit_repo_char] sepc_def del: matcher.simps upt_Suc split: list.splits)

lemma stage_domain:
  "matcher True n re_domain s = map (\<lambda>k. cap_skip ''domain'' k s) (rev [1..<Suc (run (hdp segc) (rest s))])"
  unfolding re_domain_def
  by (simp add: grp_rep[OF unit_seg] del: matcher.simps upt_Suc)

lemma filter_progress:
  "filter (\<lambda>y. length (rest y) < Suc (length t)) (map (\<lambda>k. cap_skip g k (s\<lparr>rest := t\<rparr>)) ks) =
     map (\<lambda>k. cap_skip g k (s\<lparr>rest := t\<rparr>)) ks"
  by (induction ks) (auto simp: cap_skip_def)

lemma opt_head_grp:
  assumes u: "unit_step True n b P" and le: "ble 1 mx"
    and h: "\<And>r s. matcher True n (Seq h r) s =
              (case rest s of [] \<Rightarrow> [] | c # t \<Rightarrow> if q c then matcher True n r (s\<lparr>rest := t\<rparr>) else [])"
    and gh: "group_names h = []"
  shows "matcher True n (Rep 0 (Fin (Suc 0)) (Seq h (Grp g (Rep 1 mx b)))) s =
     (case rest s of [] \<Rightarrow> []
      | c # t \<Rightarrow> if q c then map (\<lambda>k. cap_skip g k (s\<lparr>rest := t\<rparr>)) (rev [1..<Suc (bmin mx (run P t))])
                 else []) @ [s]"
proof -
  let ?body = "Seq h (Grp g (Rep 1 mx b))"
  have gn: "group_names ?body = [g]"
    using u gh by (simp add: unit_step_def)
  have rc: "rest (clear_caps [g] s) = rest s"
    by (simp add: clear_caps_def)
  show ?thesis
  proof (cases "rest s")
    case Nil
    then have "matcher True n ?body (clear_caps [g] s) = []"
      unfolding h rc by simp
    then show ?thesis
      unfolding opt_eq gn using Nil by simp
  next
    case (Cons c t)
    show ?thesis
    proof (cases "q c")
      case False
      then have "matcher True n ?body (clear_caps [g] s) = []"
        unfolding h rc using Cons by simp
      then show ?thesis
        unfolding opt_eq gn using Cons False by simp
    next
      case True
      have "matcher True n ?body (clear_caps [g] s) =
              map (\<lambda>k. cap_skip g k (s\<lparr>rest := t\<rparr>)) (rev [1..<Suc (bmin mx (run P t))])"
        unfolding h rc using Cons True
        by (simp add: grp_rep[OF u le, unfolded One_nat_def] cap_skip_rest_clear del: matcher.simps upt_Suc)
      moreover have "length (rest s) = Suc (length t)"
        using Cons by simp
      ultimately show ?thesis
        unfolding opt_eq gn using Cons True
        by (simp only: filter_progress list.case if_True)
    qed
  qed
qed

lemma stage_owner:
  "matcher True n re_owner s =
     (case rest s of [] \<Rightarrow> []
      | c # t \<Rightarrow> if sepc c then map (\<lambda>k. cap_skip ''owner'' k (s\<lparr>rest := t\<rparr>)) (rev [1..<Suc (run (hdp segc) t)])
                 else []) @ [s]"
proof -
  have h: "\<And>r s. matcher True n (Seq (Cls [CChar (CHR ''/''), CChar (CHR '':'')]) r) s =
             (case rest s of [] \<Rightarrow> [] | c # t \<Rightarrow> if sepc c then matcher True n r (s\<lparr>rest := t\<rparr>) else [])"
    by (simp add: seq_cls sepc_def del: matcher.simps cong: list.case_cong)
  have "ble 1 Inf" by simp
  from opt_head_grp[OF unit_seg this h, of "''owner''" s]
  show ?thesis
    unfolding re_owner_def re_sep_def One_nat_def by (cases "rest s") (simp_all del: upt_Suc)
qed

lemma stage_port:
  "matcher True n re_port s =
     (case rest s of [] \<Rightarrow> []
      | c # t \<Rightarrow> if c = CHR '':'' then map (\<lambda>k. cap_skip ''port'' k (s\<lparr>rest := t\<rparr>))
                                        (rev [1..<Suc (min 5 (run (hdp digc) t))])
                 else []) @ [s]"
proof -
  have h: "\<And>r s. matcher True n (Seq (Lit (CHR '':'')) r) s =
             (case rest s of [] \<Rightarrow> [] | c # t \<Rightarrow> if c = CHR '':'' then matcher True n r (s\<lparr>rest := t\<rparr>) else [])"
    by (simp add: seq_lit lit_punct del: matcher.simps cong: list.case_cong)
  have "ble 1 (Fin 5)" by simp
  from opt_head_grp[OF unit_dig this h, of "''port''" s]
  show ?thesis
    unfolding re_port_def One_nat_def by (cases "rest s") (simp_all del: upt_Suc)
qed

lemma run_take: "k \<le> run (hdp p) xs \<Longrightarrow> list_all p (take k xs)"
proof (induction xs arbitrary: k)
  case Nil
  then show ?case by simp
next
  case (Cons c cs)
  then show ?case by (cases k) (auto simp: hdp_def split: if_splits)
qed

lemma run_hdp_eq:
  "list_all p w \<Longrightarrow> t = [] \<or> \<not> p (hd t) \<Longrightarrow> run (hdp p) (w @ t) = length w"
proof (induction w)
  case Nil
  then show ?case by (cases t) (auto simp: hdp_def)
next
  case (Cons c w)
  then show ?case by (simp add: hdp_def)
qed

lemma rev_upt_hd: "Suc 0 \<le> r \<Longrightarrow> rev [Suc 0..<Suc r] = r # rev [Suc 0..<r]"
  by simp

lemma user_body:
  "matcher True n
     (Seq (Grp ''user''
             (Seq (Cls [CRange (CHR ''a'') (CHR ''z''), CChar (CHR ''_'')])
                  (Rep (Suc 0) Inf (Cls [CRange (CHR ''a'') (CHR ''z''), CRange (CHR ''0'') (CHR ''9''),
                                         CChar (CHR ''_''), CChar (CHR ''-'')]))))
          (Lit (CHR ''@''))) s =
   (case rest s of [] \<Rightarrow> []
    | c # t \<Rightarrow>
        if uhc c
        then concat (map (\<lambda>k. case drop k t of [] \<Rightarrow> []
                               | a # z \<Rightarrow> if a = CHR ''@''
                                   then [s\<lparr>rest := z, caps := (caps s)(''user'' \<mapsto> c # take k t)\<rparr>] else [])
                      (rev [1..<Suc (run (hdp utc) t)]))
        else [])"
proof (cases "rest s")
  case Nil
  then show ?thesis
    unfolding matcher.simps(7)[of True n "Grp _ _"] matcher.simps(10)
    by (simp add: seq_cls del: matcher.simps(7))
next
  case (Cons c t)
  show ?thesis
  proof (cases "uhc c")
    case False
    then show ?thesis
      using Cons unfolding matcher.simps(7)[of True n "Grp _ _"] matcher.simps(10)
      by (simp add: seq_cls uhc_def del: matcher.simps(7))
  next
    case True
    let ?ut = "Cls [CRange (CHR ''a'') (CHR ''z''), CRange (CHR ''0'') (CHR ''9''), CChar (CHR ''_''), CChar (CHR ''-'')]"
    have inner: "matcher True n (Seq (Cls [CRange (CHR ''a'') (CHR ''z''), CChar (CHR ''_'')]) (Rep (Suc 0) Inf ?ut)) s
                  = map (\<lambda>k. skip k (s\<lparr>rest := t\<rparr>)) (rev [1..<Suc (run (hdp utc) t)])"
      using Cons True rep_unit[OF unit_ut, of 1 Inf n "s\<lparr>rest := t\<rparr>"]
      by (simp add: seq_cls uhc_def del: matcher.simps upt_Suc)
    have cap: "k \<in> set (rev [1..<Suc (run (hdp utc) t)]) \<Longrightarrow>
                 matcher True n (Lit (CHR ''@'')) (set_cap ''user'' s (skip k (s\<lparr>rest := t\<rparr>))) =
                 (case drop k t of [] \<Rightarrow> []
                  | a # z \<Rightarrow> if a = CHR ''@''
                      then [s\<lparr>rest := z, caps := (caps s)(''user'' \<mapsto> c # take k t)\<rparr>] else [])" for k
    proof -
      assume "k \<in> set (rev [1..<Suc (run (hdp utc) t)])"
      then have "k \<le> length t" using run_le[of "hdp utc" t] by auto
      then have "take (length (rest s) - length (drop k t)) (rest s) = c # take k t"
        using Cons by (simp add: Suc_diff_le)
      then show ?thesis
        by (simp add: one_char_def advance_def set_cap_def skip_def lit_punct split: list.splits)
    qed
    have "matcher True n
     (Seq (Grp ''user'' (Seq (Cls [CRange (CHR ''a'') (CHR ''z''), CChar (CHR ''_'')]) (Rep (Suc 0) Inf ?ut)))
          (Lit (CHR ''@''))) s =
       concat (map (\<lambda>k. matcher True n (Lit (CHR ''@'')) (set_cap ''user'' s (skip k (s\<lparr>rest := t\<rparr>))))
                      (rev [1..<Suc (run (hdp utc) t)]))"
      unfolding matcher.simps(7)[of True n "Grp _ _"] matcher.simps(10) inner
      by (simp add: comp_def del: matcher.simps upt_Suc)
    also have "\<dots> = concat (map (\<lambda>k. case drop k t of [] \<Rightarrow> []
                               | a # z \<Rightarrow> if a = CHR ''@''
                                   then [s\<lparr>rest := z, caps := (caps s)(''user'' \<mapsto> c # take k t)\<rparr>] else [])
                      (rev [1..<Suc (run (hdp utc) t)]))"
      by (rule arg_cong[where f = concat], rule map_cong[OF refl], rule cap)
    finally show ?thesis
      using Cons True by simp
  qed
qed

lemma in_concat_map: "y \<in> set (concat (map F ks)) \<Longrightarrow> \<exists>k\<in>set ks. y \<in> set (F k)"
  by auto

lemma clear_set_state:
  "(clear_caps [g] s)\<lparr>rest := z, caps := (caps (clear_caps [g] s))(g \<mapsto> v)\<rparr> = s\<lparr>rest := z, caps := (caps s)(g \<mapsto> v)\<rparr>"
  by (simp add: clear_caps_def fun_eq_iff)

lemma user_mem:
  assumes "y \<in> set (matcher True n re_user s)"
  shows "y = s \<or> (\<exists>u z. rest s = u @ CHR ''@'' # z \<and> user_str u \<and> y = s\<lparr>rest := z, caps := (caps s)(''user'' \<mapsto> u)\<rparr>)"
proof (cases "y = s")
  case True
  then show ?thesis by simp
next
  case False
  let ?s = "clear_caps [''user''] s"
  have rc: "rest ?s = rest s" by (simp add: clear_caps_def)
  from assms False have "y \<in> set (matcher True n
     (Seq (Grp ''user''
             (Seq (Cls [CRange (CHR ''a'') (CHR ''z''), CChar (CHR ''_'')])
                  (Rep (Suc 0) Inf (Cls [CRange (CHR ''a'') (CHR ''z''), CRange (CHR ''0'') (CHR ''9''),
                                         CChar (CHR ''_''), CChar (CHR ''-'')]))))
          (Lit (CHR ''@''))) ?s)"
    unfolding re_user_def One_nat_def opt_eq by (simp del: matcher.simps)
  then have mem: "y \<in> set (case rest s of [] \<Rightarrow> []
    | c # t \<Rightarrow>
        if uhc c
        then concat (map (\<lambda>k. case drop k t of [] \<Rightarrow> []
                               | a # z \<Rightarrow> if a = CHR ''@''
                                   then [?s\<lparr>rest := z, caps := (caps ?s)(''user'' \<mapsto> c # take k t)\<rparr>] else [])
                      (rev [1..<Suc (run (hdp utc) t)]))
        else [])"
    unfolding user_body rc .
  then obtain c t where r: "rest s = c # t"
    by (cases "rest s") auto
  from mem r have c: "uhc c"
    by (simp split: if_splits del: upt_Suc)
  from mem have "y \<in> set (concat (map (\<lambda>k. case drop k t of [] \<Rightarrow> []
                               | a # z \<Rightarrow> if a = CHR ''@''
                                   then [?s\<lparr>rest := z, caps := (caps ?s)(''user'' \<mapsto> c # take k t)\<rparr>] else [])
                      (rev [1..<Suc (run (hdp utc) t)])))"
    unfolding r using c by (simp only: list.case if_True)
  from in_concat_map[OF this] obtain k where kk: "k \<in> set (rev [1..<Suc (run (hdp utc) t)])"
      and yk: "y \<in> set (case drop k t of [] \<Rightarrow> []
                               | a # z \<Rightarrow> if a = CHR ''@''
                                   then [?s\<lparr>rest := z, caps := (caps ?s)(''user'' \<mapsto> c # take k t)\<rparr>] else [])"
    by blast
  from kk have k: "1 \<le> k" "k \<le> run (hdp utc) t" by auto
  from yk obtain a z where d: "drop k t = a # z"
    by (cases "drop k t") auto
  from yk d have a: "a = CHR ''@''"
    by (simp split: if_splits)
  from yk d a have y: "y = ?s\<lparr>rest := z, caps := (caps ?s)(''user'' \<mapsto> c # take k t)\<rparr>"
    by simp
  have "t = take k t @ CHR ''@'' # z"
    using d a by (metis append_take_drop_id)
  then have "rest s = (c # take k t) @ CHR ''@'' # z"
    using r by simp
  moreover have "user_str (c # take k t)"
    using c k run_take[OF k(2)] d by (auto simp: user_str_def)
  moreover have "y = s\<lparr>rest := z, caps := (caps s)(''user'' \<mapsto> c # take k t)\<rparr>"
    using y by (simp only: clear_set_state)
  ultimately show ?thesis by blast
qed

lemma user_hd:
  assumes r: "rest s = u @ CHR ''@'' # z" and u: "user_str u"
  shows "\<exists>ys. matcher True n re_user s = s\<lparr>rest := z, caps := (caps s)(''user'' \<mapsto> u)\<rparr> # ys"
proof -
  let ?s = "clear_caps [''user''] s"
  have rc: "rest ?s = rest s" by (simp add: clear_caps_def)
  from u obtain c t where ct: "u = c # t" "uhc c" "t \<noteq> []" "list_all utc t"
    by (auto simp: user_str_def)
  have run: "run (hdp utc) (t @ CHR ''@'' # z) = length t"
    using run_hdp_eq[OF ct(4), of "CHR ''@'' # z"] utc_not_at by auto
  have "rev [1..<Suc (length t)] = length t # rev [1..<length t]"
    using ct(3) by (simp add: Suc_le_eq)
  then have "\<exists>ys. matcher True n
     (Seq (Grp ''user''
             (Seq (Cls [CRange (CHR ''a'') (CHR ''z''), CChar (CHR ''_'')])
                  (Rep (Suc 0) Inf (Cls [CRange (CHR ''a'') (CHR ''z''), CRange (CHR ''0'') (CHR ''9''),
                                         CChar (CHR ''_''), CChar (CHR ''-'')]))))
          (Lit (CHR ''@''))) ?s = ?s\<lparr>rest := z, caps := (caps ?s)(''user'' \<mapsto> u)\<rparr> # ys"
    unfolding user_body rc using r ct run by (simp del: upt_Suc)
  then obtain ys where "matcher True n
     (Seq (Grp ''user''
             (Seq (Cls [CRange (CHR ''a'') (CHR ''z''), CChar (CHR ''_'')])
                  (Rep (Suc 0) Inf (Cls [CRange (CHR ''a'') (CHR ''z''), CRange (CHR ''0'') (CHR ''9''),
                                         CChar (CHR ''_''), CChar (CHR ''-'')]))))
          (Lit (CHR ''@''))) ?s = s\<lparr>rest := z, caps := (caps s)(''user'' \<mapsto> u)\<rparr> # ys"
    by (auto simp only: clear_set_state)
  then show ?thesis
    unfolding re_user_def One_nat_def opt_eq using r by (simp del: matcher.simps)
qed

subsection \<open>The first result of each piece on a canonical reference\<close>

lemma cap_skip_append:
  "rest s = w @ z \<Longrightarrow> cap_skip g (length w) s = s\<lparr>rest := z, caps := (caps s)(g \<mapsto> w)\<rparr>"
  by (simp add: cap_skip_def)

lemma seq_hd:
  "matcher ic n a s = x # xs \<Longrightarrow> matcher ic n b x = y # ys \<Longrightarrow> \<exists>zs. matcher ic n (Seq a b) s = y # zs"
  by simp

lemma lead_hd:
  assumes "length (rest s) = n" and "rest s = c # z" and "\<not> is_space c"
  shows "matcher True n re_lead s = [s]"
  using assms rep_unit[OF unit_ws, of 0 Inf n s]
  by (simp add: re_lead_def hdp_def)

lemma proto_hd:
  assumes "rest s = ''ssh://'' @ z"
  shows "\<exists>ys. matcher True n re_proto s = s\<lparr>rest := z, caps := (caps s)(''proto'' \<mapsto> ''ssh'')\<rparr> # ys"
proof -
  let ?s = "clear_caps [''proto''] s"
  have rc: "rest ?s = ''ssh://'' @ z" using assms by (simp add: clear_caps_def)
  have az: "azc (CHR ''s'')" "azc (CHR ''h'')" "\<not> azc (CHR '':'')"
    by (simp_all add: azc_def cls_any_def in_range_def swap_case_def)
  have run: "run (hdp azc) (rest ?s) = 3"
    unfolding rc using az by (simp add: hdp_def)
  have g: "matcher True n (Grp ''proto'' (Rep (Suc 0) Inf (Cls [CRange (CHR ''a'') (CHR ''z'')]))) ?s =
             [cap_skip ''proto'' (Suc (Suc (Suc 0))) ?s, cap_skip ''proto'' (Suc (Suc 0)) ?s,
              cap_skip ''proto'' (Suc 0) ?s]"
    using grp_rep[OF unit_az, of 1 Inf n "''proto''" ?s] run
    by (simp add: upt_rec del: matcher.simps)
  have c3: "cap_skip ''proto'' (Suc (Suc (Suc 0))) ?s = s\<lparr>rest := '':/'' @ CHR ''/'' # z, caps := (caps s)(''proto'' \<mapsto> ''ssh'')\<rparr>"
    using rc by (simp add: cap_skip_def clear_caps_def fun_eq_iff)
  have l: "\<exists>ys. matcher True n (Seq (Grp ''proto'' (Rep (Suc 0) Inf (Cls [CRange (CHR ''a'') (CHR ''z'')])))
                 (Seq (Lit (CHR '':'')) (Seq (Lit (CHR ''/'')) (Lit (CHR ''/''))))) ?s
             = s\<lparr>rest := z, caps := (caps s)(''proto'' \<mapsto> ''ssh'')\<rparr> # ys"
    unfolding matcher.simps(7)[of True n "Grp _ _"] g c3
    by (simp add: seq_lit lit_last lit_punct del: matcher.simps)
  then show ?thesis
    unfolding re_proto_def One_nat_def opt_eq using assms
    by (auto simp del: matcher.simps)
qed

lemma domain_hd:
  assumes "rest s = d @ CHR '':'' # z" and "d \<noteq> []" and "list_all segc d"
  shows "\<exists>ys. matcher True n re_domain s = s\<lparr>rest := CHR '':'' # z, caps := (caps s)(''domain'' \<mapsto> d)\<rparr> # ys"
proof -
  have "run (hdp segc) (rest s) = length d"
    unfolding assms(1) using run_hdp_eq[OF assms(3), of "CHR '':'' # z"] by (simp add: segc_iff)
  moreover have "1 \<le> length d" using assms(2) by (simp add: Suc_le_eq)
  ultimately show ?thesis
    unfolding stage_domain using cap_skip_append[OF assms(1), of "''domain''"]
    by (simp add: rev_upt_hd del: upt_Suc)
qed

lemma port_hd:
  assumes "rest s = CHR '':'' # p @ CHR ''/'' # z" and "p \<noteq> []" and "length p \<le> 5" and "list_all digc p"
  shows "\<exists>ys. matcher True n re_port s = s\<lparr>rest := CHR ''/'' # z, caps := (caps s)(''port'' \<mapsto> p)\<rparr> # ys"
proof -
  have "run (hdp digc) (p @ CHR ''/'' # z) = length p"
    using run_hdp_eq[OF assms(4), of "CHR ''/'' # z"] digc_not_slash by auto
  moreover have "1 \<le> length p" using assms(2) by (simp add: Suc_le_eq)
  moreover have "cap_skip ''port'' (length p) (s\<lparr>rest := p @ CHR ''/'' # z\<rparr>)
                   = s\<lparr>rest := CHR ''/'' # z, caps := (caps s)(''port'' \<mapsto> p)\<rparr>"
    by (simp add: cap_skip_def)
  ultimately show ?thesis
    unfolding stage_port using assms(1,3)
    by (simp add: rev_upt_hd min_absorb2 del: upt_Suc)
qed

lemma owner_hd:
  assumes "rest s = CHR ''/'' # ow @ CHR ''/'' # z" and "ow \<noteq> []" and "list_all segc ow"
  shows "\<exists>ys. matcher True n re_owner s = s\<lparr>rest := CHR ''/'' # z, caps := (caps s)(''owner'' \<mapsto> ow)\<rparr> # ys"
proof -
  have "run (hdp segc) (ow @ CHR ''/'' # z) = length ow"
    using run_hdp_eq[OF assms(3), of "CHR ''/'' # z"] by (simp add: segc_iff)
  moreover have "1 \<le> length ow" using assms(2) by (simp add: Suc_le_eq)
  moreover have "cap_skip ''owner'' (length ow) (s\<lparr>rest := ow @ CHR ''/'' # z\<rparr>)
                   = s\<lparr>rest := CHR ''/'' # z, caps := (caps s)(''owner'' \<mapsto> ow)\<rparr>"
    by (simp add: cap_skip_def)
  ultimately show ?thesis
    unfolding stage_owner using assms(1)
    by (simp add: rev_upt_hd sepc_iff del: upt_Suc)
qed

lemma not_space_t: "\<not> is_space (CHR ''t'')" "\<not> is_space (CHR ''/'')"
  by (simp_all add: is_space_def)

lemma no_git_end: "\<not> git_end (w @ ''.git'')"
proof
  assume "git_end (w @ ''.git'')"
  then obtain a b c t where e: "w @ ''.git'' = a # b # c # t" and sl: "slash_ws_end t"
    by (auto simp: git_end_def)
  have "length (w @ ''.git'') = length (a # b # c # t)" using e by simp
  then have ne: "t \<noteq> []" by auto
  have "last (a # b # c # t) = CHR ''t''" using e[symmetric] by simp
  then have lt: "last t = CHR ''t''" using ne by simp
  from sl show False
  proof (unfold slash_ws_end_def, elim disjE exE conjE)
    assume "list_all is_space t"
    then have "is_space (last t)" using ne by (simp add: list_all_iff)
    then show False using lt not_space_t by simp
  next
    fix t' assume t': "t = CHR ''/'' # t'" and sp: "list_all is_space t'"
    show False
    proof (cases "t' = []")
      case True
      then show ?thesis using lt t' by simp
    next
      case False
      then have "is_space (last t')" using sp by (simp add: list_all_iff)
      then show ?thesis using lt t' False not_space_t by simp
    qed
  qed
qed

lemma git_end_git: "git_end ''git''"
  by (simp add: git_end_def is_git_def lit_match_def slash_ws_end_def)

lemma repo_run_canonical:
  assumes "list_all repoc r"
  shows "run repo_step (r @ ''.git'') = length r"
proof (rule run_eq)
  show "\<forall>i<length r. repo_step (drop i r @ ''.git'')"
  proof (intro allI impI)
    fix i assume i: "i < length r"
    then obtain c w where d: "drop i r = c # w"
      by (cases "drop i r") auto
    then have "c \<in> set r" by (metis in_set_dropD list.set_intros(1))
    then have "repoc c" using assms by (simp add: list_all_iff)
    then show "repo_step (drop i r @ ''.git'')"
      unfolding d using no_git_end[of w] by (auto simp: repo_step_def repoc_def)
  qed
  show "''.git'' = [] \<or> \<not> repo_step ''.git''"
    using git_end_git by (simp add: repo_step_def repoA_iff)
qed

lemma tail_ok_git: "tail_ok ''.git''"
  by (simp add: tail_ok_def is_git_def lit_match_def slash_ws_end_def is_line_terminator_def)

lemma frame_all:
  "y \<in> set (matcher ic n r s) \<Longrightarrow> group_names r = [] \<Longrightarrow> caps y = caps s"
  using frame[of y ic n r s] by (auto simp: fun_eq_iff)

lemma group_names_tail: "group_names re_tail = []"
  by (simp add: re_tail_def)

lemma repo_tail_hd:
  assumes "rest s = CHR ''/'' # r @ ''.git''" and "r \<noteq> []" and "list_all repoc r"
  shows "\<exists>y ys. matcher True n (Seq re_repo re_tail) s = y # ys \<and> caps y = (caps s)(''repo'' \<mapsto> r)"
proof -
  let ?x = "s\<lparr>rest := ''.git'', caps := (caps s)(''repo'' \<mapsto> r)\<rparr>"
  have "Suc 0 \<le> length r" using assms(2) by (simp add: Suc_le_eq)
  moreover have "cap_skip ''repo'' (length r) (s\<lparr>rest := r @ ''.git''\<rparr>) = ?x"
    by (simp add: cap_skip_def)
  ultimately obtain xs where x: "matcher True n re_repo s = ?x # xs"
    unfolding stage_repo using assms(1) repo_run_canonical[OF assms(3)]
    by (simp add: rev_upt_hd sepc_iff del: upt_Suc)
  have "matcher True n re_tail ?x \<noteq> []"
    unfolding tail_iff using tail_ok_git by simp
  then obtain y ys where y: "matcher True n re_tail ?x = y # ys"
    by (cases "matcher True n re_tail ?x") auto
  then have "y \<in> set (matcher True n re_tail ?x)" by simp
  then have "caps y = caps ?x"
    by (rule frame_all) (rule group_names_tail)
  moreover from seq_hd[OF x y] obtain zs where "matcher True n (Seq re_repo re_tail) s = y # zs" ..
  ultimately show ?thesis by simp
qed

lemma t7_iff: "(matcher True n (Seq re_repo re_tail) s \<noteq> []) = t7_ok (rest s)"
proof (cases "rest s")
  case Nil
  then show ?thesis
    unfolding seq_nonempty stage_repo by (simp add: t7_ok_def)
next
  case (Cons c t)
  show ?thesis
  proof (cases "sepc c")
    case False
    then show ?thesis
      unfolding seq_nonempty stage_repo using Cons by (simp add: t7_ok_def)
  next
    case True
    have "(matcher True n (Seq re_repo re_tail) s \<noteq> []) =
            (\<exists>k. 1 \<le> k \<and> k \<le> run repo_step t \<and> tail_ok (drop k t))"
      unfolding seq_nonempty stage_repo tail_iff using Cons True
      by (auto simp: cap_skip_def less_Suc_eq_le simp del: upt_Suc)
    then show ?thesis
      using Cons True by (simp add: t7_ok_def)
  qed
qed

subsection \<open>What a match captures\<close>

lemma run_take_repo: "k \<le> run repo_step xs \<Longrightarrow> list_all repoc (take k xs)"
proof (induction xs arbitrary: k)
  case Nil
  then show ?case by simp
next
  case (Cons c cs)
  then show ?case by (cases k) (auto simp: repo_step_def repoc_def split: if_splits)
qed

lemma take_ne: "1 \<le> k \<Longrightarrow> k \<le> run P xs \<Longrightarrow> take k xs \<noteq> []"
  using run_le[of P xs] by (cases xs) auto

lemma in_map_rev_upt:
  "y \<in> set (map f (rev [1..<Suc m])) \<Longrightarrow> \<exists>k. 1 \<le> k \<and> k \<le> m \<and> y = f k"
  by auto

lemma domain_mem:
  assumes "y \<in> set (matcher True n re_domain s)"
  shows "\<exists>d. d \<noteq> [] \<and> list_all segc d \<and> caps y = (caps s)(''domain'' \<mapsto> d)"
proof -
  from assms have "y \<in> set (map (\<lambda>k. cap_skip ''domain'' k s) (rev [1..<Suc (run (hdp segc) (rest s))]))"
    unfolding stage_domain .
  from in_map_rev_upt[OF this]
  obtain k where k: "1 \<le> k" "k \<le> run (hdp segc) (rest s)" and y: "y = cap_skip ''domain'' k s"
    by blast
  have "caps y = (caps s)(''domain'' \<mapsto> take k (rest s))"
    using y by (simp add: cap_skip_def)
  with take_ne[OF k] run_take[OF k(2)] show ?thesis by blast
qed

lemma opt_stage_mem:
  assumes "y \<in> set ((case rest s of [] \<Rightarrow> []
      | c # t \<Rightarrow> if q c then map (\<lambda>k. cap_skip g k (s\<lparr>rest := t\<rparr>)) (rev [1..<Suc (m t)])
                 else []) @ [s])"
    and "y \<noteq> s"
  shows "\<exists>c t k. rest s = c # t \<and> q c \<and> 1 \<le> k \<and> k \<le> m t \<and> y = cap_skip g k (s\<lparr>rest := t\<rparr>)"
proof (cases "rest s")
  case Nil
  with assms show ?thesis by simp
next
  case (Cons c t)
  show ?thesis
  proof (cases "q c")
    case False
    with assms Cons show ?thesis by simp
  next
    case True
    with assms Cons have "y \<in> set (map (\<lambda>k. cap_skip g k (s\<lparr>rest := t\<rparr>)) (rev [1..<Suc (m t)]))"
      by (simp del: upt_Suc)
    from in_map_rev_upt[OF this] Cons True show ?thesis by blast
  qed
qed

lemma port_mem:
  assumes "y \<in> set (matcher True n re_port s)"
  shows "y = s \<or> (\<exists>p. p \<noteq> [] \<and> length p \<le> 5 \<and> list_all digc p \<and> caps y = (caps s)(''port'' \<mapsto> p))"
proof (cases "y = s")
  case True
  then show ?thesis by simp
next
  case False
  from opt_stage_mem[OF assms[unfolded stage_port] False]
  obtain c t k where r: "rest s = c # t"
      and k: "1 \<le> k" "k \<le> min 5 (run (hdp digc) t)" and y: "y = cap_skip ''port'' k (s\<lparr>rest := t\<rparr>)"
    by blast
  have k2: "k \<le> run (hdp digc) t" and k5: "k \<le> 5" using k(2) by auto
  have "caps y = (caps s)(''port'' \<mapsto> take k t)"
    using y by (simp add: cap_skip_def)
  moreover have "length (take k t) \<le> 5" using k5 by simp
  ultimately show ?thesis
    using take_ne[OF k(1) k2] run_take[OF k2] by blast
qed

lemma owner_mem:
  assumes "y \<in> set (matcher True n re_owner s)"
  shows "y = s \<or> (\<exists>ow. ow \<noteq> [] \<and> list_all segc ow \<and> caps y = (caps s)(''owner'' \<mapsto> ow))"
proof (cases "y = s")
  case True
  then show ?thesis by simp
next
  case False
  from opt_stage_mem[OF assms[unfolded stage_owner] False]
  obtain c t k where r: "rest s = c # t"
      and k: "1 \<le> k" "k \<le> run (hdp segc) t" and y: "y = cap_skip ''owner'' k (s\<lparr>rest := t\<rparr>)"
    by blast
  have "caps y = (caps s)(''owner'' \<mapsto> take k t)"
    using y by (simp add: cap_skip_def)
  then show ?thesis
    using take_ne[OF k] run_take[OF k(2)] by blast
qed

lemma repo_mem:
  assumes "y \<in> set (matcher True n re_repo s)"
  shows "\<exists>c t k. rest s = c # t \<and> sepc c \<and> 1 \<le> k \<and> k \<le> run repo_step t \<and> y = cap_skip ''repo'' k (s\<lparr>rest := t\<rparr>)"
proof -
  from assms have mem: "y \<in> set ((case rest s of [] \<Rightarrow> []
      | c # t \<Rightarrow> if sepc c then map (\<lambda>k. cap_skip ''repo'' k (s\<lparr>rest := t\<rparr>)) (rev [1..<Suc (run repo_step t)])
                 else []))"
    unfolding stage_repo .
  show ?thesis
  proof (cases "rest s")
    case Nil
    with mem show ?thesis by simp
  next
    case (Cons c t)
    show ?thesis
    proof (cases "sepc c")
      case False
      with mem Cons show ?thesis by simp
    next
      case True
      with mem Cons
      have "y \<in> set (map (\<lambda>k. cap_skip ''repo'' k (s\<lparr>rest := t\<rparr>)) (rev [1..<Suc (run repo_step t)]))"
        by (simp del: upt_Suc)
      from in_map_rev_upt[OF this] Cons True show ?thesis by blast
    qed
  qed
qed

lemma seq_mem:
  "y \<in> set (matcher ic n (Seq a b) s) \<Longrightarrow> \<exists>x\<in>set (matcher ic n a s). y \<in> set (matcher ic n b x)"
  by auto

lemma group_names_pieces:
  "group_names re_lead = []" "group_names re_proto = [''proto'']" "group_names re_user = [''user'']"
  "group_names re_domain = [''domain'']" "group_names re_port = [''port'']"
  "group_names re_owner = [''owner'']" "group_names re_repo = [''repo'']"
  by (simp_all add: re_lead_def re_proto_def re_user_def re_domain_def re_port_def re_owner_def
        re_repo_def re_sep_def re_repo_char_def re_git_end_def)

lemma parse_sound:
  assumes "y \<in> set (matcher True n SSH_PATH_RE \<lparr>rest = input, caps = Map.empty\<rparr>)"
  shows "wf_caps (caps y)"
proof -
  let ?s0 = "\<lparr>rest = input, caps = Map.empty\<rparr>"
  from seq_mem[OF assms[unfolded SSH_PATH_RE_def]] obtain x1 where
    x1: "x1 \<in> set (matcher True n re_lead ?s0)"
    and r1: "y \<in> set (matcher True n (Seq re_proto (Seq re_user (Seq re_domain
               (Seq re_port (Seq re_owner (Seq re_repo re_tail)))))) x1)" by blast
  from seq_mem[OF r1] obtain x2 where
    x2: "x2 \<in> set (matcher True n re_proto x1)"
    and r2: "y \<in> set (matcher True n (Seq re_user (Seq re_domain
               (Seq re_port (Seq re_owner (Seq re_repo re_tail))))) x2)" by blast
  from seq_mem[OF r2] obtain x3 where
    x3: "x3 \<in> set (matcher True n re_user x2)"
    and r3: "y \<in> set (matcher True n (Seq re_domain
               (Seq re_port (Seq re_owner (Seq re_repo re_tail)))) x3)" by blast
  from seq_mem[OF r3] obtain x4 where
    x4: "x4 \<in> set (matcher True n re_domain x3)"
    and r4: "y \<in> set (matcher True n (Seq re_port (Seq re_owner (Seq re_repo re_tail))) x4)" by blast
  from seq_mem[OF r4] obtain x5 where
    x5: "x5 \<in> set (matcher True n re_port x4)"
    and r5: "y \<in> set (matcher True n (Seq re_owner (Seq re_repo re_tail)) x5)" by blast
  from seq_mem[OF r5] obtain x6 where
    x6: "x6 \<in> set (matcher True n re_owner x5)"
    and r6: "y \<in> set (matcher True n (Seq re_repo re_tail) x6)" by blast
  from seq_mem[OF r6] obtain x7 where
    x7: "x7 \<in> set (matcher True n re_repo x6)"
    and r7: "y \<in> set (matcher True n re_tail x7)" by blast
  have c1: "caps x1 = Map.empty"
    using frame_all[OF x1 group_names_pieces(1)] by simp
  have c2: "caps x2 ''user'' = None" "caps x2 ''port'' = None" "caps x2 ''owner'' = None"
    using frame[OF x2, of "''user''"] frame[OF x2, of "''port''"] frame[OF x2, of "''owner''"] c1
    by (simp_all add: group_names_pieces)
  have c3: "caps x3 ''port'' = None" "caps x3 ''owner'' = None"
           "\<forall>u. caps x3 ''user'' = Some u \<longrightarrow> user_str u"
    using user_mem[OF x3] c2 by auto
  from domain_mem[OF x4] obtain d where d: "d \<noteq> []" "list_all segc d" "caps x4 = (caps x3)(''domain'' \<mapsto> d)"
    by blast
  have c5: "\<forall>p. caps x5 ''port'' = Some p \<longrightarrow> p \<noteq> [] \<and> length p \<le> 5 \<and> list_all digc p"
           "caps x5 ''owner'' = None" "caps x5 ''user'' = caps x3 ''user''" "caps x5 ''domain'' = Some d"
    using port_mem[OF x5] d(3) c3 by auto
  have c6: "\<forall>ow. caps x6 ''owner'' = Some ow \<longrightarrow> ow \<noteq> [] \<and> list_all segc ow"
           "caps x6 ''user'' = caps x3 ''user''" "caps x6 ''domain'' = Some d" "caps x6 ''port'' = caps x5 ''port''"
    using owner_mem[OF x6] c5 by auto
  from repo_mem[OF x7] obtain c t k where
    k: "1 \<le> k" "k \<le> run repo_step t" and y7: "x7 = cap_skip ''repo'' k (x6\<lparr>rest := t\<rparr>)"
    by blast
  have c7: "caps x7 = (caps x6)(''repo'' \<mapsto> take k t)"
    using y7 by (simp add: cap_skip_def)
  have c8: "caps y = caps x7"
    using frame_all[OF r7 group_names_tail] .
  show ?thesis
    unfolding wf_caps_def c8 c7
    using c3(3) c5(1) c6 d(1,2) take_ne[OF k] run_take_repo[OF k(2)] by simp
qed

subsection \<open>Decimal digits\<close>

lemma digc_digit_char: "d < 10 \<Longrightarrow> digc (digit_char d)"
  by (simp add: digc_iff in_range_def digit_char_def)

lemma digit_val_char: "d < 10 \<Longrightarrow> digit_val (digit_char d) = d"
  by (simp add: digit_val_def digit_char_def)

lemma digit_val_le: "digc c \<Longrightarrow> digit_val c \<le> 9"
  unfolding digc_iff in_range_def digit_val_def by simp linarith

lemma show_nat_digits: "list_all digc (show_nat n)"
  by (induction n rule: show_nat.induct) (subst show_nat.simps, simp add: digc_digit_char)

lemma show_nat_ne: "show_nat n \<noteq> []"
  by (subst show_nat.simps) simp

lemma show_nat_len: "0 < k \<Longrightarrow> n < 10 ^ k \<Longrightarrow> length (show_nat n) \<le> k"
proof (induction n arbitrary: k rule: show_nat.induct)
  case (1 n)
  show ?case
  proof (cases "n < 10")
    case True
    then show ?thesis using 1(2) by (subst show_nat.simps) simp
  next
    case False
    have "(10::nat) < 10 ^ k" using False 1(3) by linarith
    then have "1 < k" using power_strict_increasing_iff[of "10::nat" 1 k] by simp
    then obtain k' where k': "k = Suc k'" "0 < k'"
      by (cases k) auto
    have "n div 10 < 10 ^ k'" using 1(3) k' by (simp add: less_mult_imp_div_less mult.commute)
    from 1(1)[OF False k'(2) this] show ?thesis
      using False k' by (subst show_nat.simps) simp
  qed
qed

lemma Number_snoc: "Number_digits (xs @ [c]) = 10 * Number_digits xs + digit_val c"
  by (simp add: Number_digits_def)

lemma Number_show: "Number_digits (show_nat n) = n"
proof (induction n rule: show_nat.induct)
  case (1 n)
  show ?case
  proof (cases "n < 10")
    case True
    then show ?thesis
      by (subst show_nat.simps) (simp add: Number_digits_def digit_val_char)
  next
    case False
    then show ?thesis
      using 1 by (subst show_nat.simps) (simp add: Number_snoc digit_val_char)
  qed
qed

lemma Number_bound: "list_all digc p \<Longrightarrow> Number_digits p < 10 ^ length p"
proof (induction p rule: rev_induct)
  case Nil
  then show ?case by (simp add: Number_digits_def)
next
  case (snoc c p)
  then have "Number_digits p < 10 ^ length p" and "digit_val c \<le> 9"
    by (simp_all add: digit_val_le)
  then show ?case
    by (simp add: Number_snoc)
qed

subsection \<open>The parser\<close>

lemma first_some_all_None: "(\<forall>x\<in>set xs. f x = None) \<Longrightarrow> first_some f xs = None"
  by (induction xs) auto

lemma js_match_anchored:
  assumes "\<And>i. 0 < i \<Longrightarrow> i \<le> length input \<Longrightarrow> match_at ic r input i = None"
  shows "js_match ic r input = match_at ic r input 0"
proof -
  have a: "[0..<Suc (length input)] = 0 # [Suc 0..<Suc (length input)]"
    by (rule upt_conv_Cons) simp
  have b: "first_some (match_at ic r input) [Suc 0..<Suc (length input)] = None"
  proof (rule first_some_all_None, rule ballI)
    fix i assume "i \<in> set [Suc 0..<Suc (length input)]"
    then have "0 < i" and "i \<le> length input" by auto
    then show "match_at ic r input i = None"
      by (rule assms)
  qed
  have "js_match ic r input =
          (case match_at ic r input 0 of Some y \<Rightarrow> Some y | None \<Rightarrow> None)"
    unfolding js_match_def a by (simp only: first_some.simps b)
  then show ?thesis
    by (simp split: option.splits)
qed

lemma js_match_ssh: "js_match True SSH_PATH_RE input = match_at True SSH_PATH_RE input 0"
proof (rule js_match_anchored)
  fix i assume "0 < i" and "i \<le> length input"
  then have "length (drop i input) \<noteq> length input" by simp
  then show "match_at True SSH_PATH_RE input i = None"
    by (simp add: match_at_def SSH_PATH_RE_def re_lead_def)
qed

lemma sanitize_Inr:
  "sanitizeRepoPathSSH input = Inr l \<Longrightarrow>
     \<exists>y ys. matcher True (length input) SSH_PATH_RE \<lparr>rest = input, caps = Map.empty\<rparr> = y # ys
            \<and> js_match True SSH_PATH_RE input = Some (caps y) \<and> l = location_of (caps y)"
  unfolding sanitizeRepoPathSSH_def js_match_ssh match_at_def location_of_def
  by (auto split: list.splits)

lemma sanitize_of_match:
  "matcher True (length input) SSH_PATH_RE \<lparr>rest = input, caps = Map.empty\<rparr> = y # ys \<Longrightarrow>
     sanitizeRepoPathSSH input = Inr (location_of (caps y))"
  unfolding sanitizeRepoPathSSH_def js_match_ssh match_at_def location_of_def
  by simp

subsection \<open>A reference without an owner segment\<close>

lemma repoc_sep: "repoc c \<Longrightarrow> sepc c \<Longrightarrow> c = CHR ''/''"
  by (auto simp: repoc_def repoA_iff sepc_iff)

lemma repoc_segc: "repoc c \<Longrightarrow> c \<noteq> CHR ''/'' \<Longrightarrow> segc c"
  by (auto simp: repoc_def repoA_iff segc_iff is_space_def)

lemma not_sep_git: "c \<in> set ''.git'' \<Longrightarrow> \<not> sepc c"
  by (auto simp: sepc_iff)

lemma run_repo_git: "run repo_step ''.git'' = 0"
  using git_end_git by (simp add: repo_step_def repoA_iff)

lemma owner_absent_stable:
  assumes k: "1 \<le> k" "k \<le> run repo_step t" and tl: "tail_ok (drop k t)"
    and no: "\<forall>j. 1 \<le> j \<and> j \<le> run (hdp segc) t \<longrightarrow> \<not> t7_ok (drop j t)"
    and j: "1 \<le> j" "j \<le> run (hdp segc) (take k t @ ''.git'')"
  shows "\<not> t7_ok (drop j (take k t @ ''.git''))"
proof
  let ?R = "take k t"
  assume "t7_ok (drop j (?R @ ''.git''))"
  then obtain c' t' k' where d: "drop j (?R @ ''.git'') = c' # t'" and sp: "sepc c'"
      and k': "1 \<le> k'" "k' \<le> run repo_step t'"
    by (auto simp: t7_ok_def)
  have kl: "k \<le> length t" using k(2) run_le[of repo_step t] by simp
  then have lR: "length ?R = k" by simp
  have rR: "list_all repoc ?R" using run_take_repo[OF k(2)] .
  have jk: "j < k"
  proof (rule ccontr)
    assume "\<not> j < k"
    then have "drop j (?R @ ''.git'') = drop (j - k) ''.git''" using lR by simp
    then have "c' \<in> set (drop (j - k) ''.git'')" using d by simp
    then have "c' \<in> set ''.git''" by (rule in_set_dropD)
    then show False using sp not_sep_git by blast
  qed
  then have dj: "drop j ?R @ ''.git'' = c' # t'" using d lR by simp
  have "drop j ?R \<noteq> []" using jk lR by simp
  then obtain Y where Y: "drop j ?R = c' # Y" and t': "t' = Y @ ''.git''"
    using dj by (cases "drop j ?R") auto
  have "c' \<in> set ?R" using Y by (metis in_set_dropD list.set_intros(1))
  then have "repoc c'" using rR by (simp add: list_all_iff)
  then have c': "c' = CHR ''/''" using sp by (rule repoc_sep)
  have Yne: "Y \<noteq> []"
  proof
    assume "Y = []"
    then have "run repo_step t' = 0" using t' run_repo_git by simp
    then show False using k' by simp
  qed
  have dt: "drop j t = c' # drop (Suc j) t"
  proof -
    have "drop j ?R = take (k - j) (drop j t)" by (simp add: drop_take)
    then have "take (k - j) (drop j t) = c' # Y" using Y by simp
    then have "hd (drop j t) = c'" and "drop j t \<noteq> []"
      by (cases "drop j t"; cases "k - j"; simp)+
    then show ?thesis by (metis drop_Suc drop_drop hd_Cons_tl list.sel(3) tl_drop plus_1_eq_Suc)
  qed
  have lY: "length Y = k - Suc j"
  proof -
    have "length (drop j ?R) = k - j" using lR by simp
    then show ?thesis using Y by simp
  qed
  have sj: "Suc j < k" using Yne lY by (cases Y) auto
  have seg: "j \<le> run (hdp segc) t"
  proof (rule run_ge)
    show "j \<le> length t" using jk kl by simp
    show "\<forall>i<j. hdp segc (drop i t)"
    proof (intro allI impI)
      fix i assume i: "i < j"
      then have "i < run (hdp segc) (?R @ ''.git'')" using j(2) by simp
      from run_P[OF this] have "hdp segc (drop i (?R @ ''.git''))" by simp
      moreover have "hd (drop i (?R @ ''.git'')) = hd (drop i t)"
      proof -
        have "i < length ?R" using i jk lR by simp
        then have "hd (drop i (?R @ ''.git'')) = hd (drop i ?R)" by (auto simp: hd_append)
        moreover have "hd (drop i ?R) = ?R ! i" using \<open>i < length ?R\<close> by (rule hd_drop_conv_nth)
        moreover have "?R ! i = t ! i" using i jk by simp
        moreover have "hd (drop i t) = t ! i" using i jk kl by (simp add: hd_drop_conv_nth)
        ultimately show ?thesis by simp
      qed
      ultimately show "hdp segc (drop i t)" by (simp add: hdp_def)
    qed
  qed
  have "t7_ok (drop j t)"
    unfolding t7_ok_def
  proof (intro exI conjI)
    show "drop j t = c' # drop (Suc j) t" by (rule dt)
    show "sepc c'" by (rule sp)
    show "1 \<le> k - Suc j" using sj by simp
    show "k - Suc j \<le> run repo_step (drop (Suc j) t)"
      using run_drop[of "Suc j" repo_step t] sj k(2) by simp
    show "tail_ok (drop (k - Suc j) (drop (Suc j) t))"
      using tl sj by simp
  qed
  then show False using no j(1) seg by blast
qed

lemma hd_concat_map: "concat (map f xs) = y # ys \<Longrightarrow> \<exists>x\<in>set xs. \<exists>zs. f x = y # zs"
proof (induction xs)
  case Nil
  then show ?case by simp
next
  case (Cons x xs)
  then show ?case by (cases "f x") auto
qed

lemma seq_first:
  "matcher ic n (Seq a b) s = y # ys \<Longrightarrow> \<exists>x\<in>set (matcher ic n a s). \<exists>zs. matcher ic n b x = y # zs"
  using hd_concat_map[of "matcher ic n b" "matcher ic n a s" y ys] by simp

lemma concat_snoc_first:
  "concat (map f (xs @ [x])) = y # ys \<Longrightarrow>
     (\<exists>x'\<in>set xs. y \<in> set (f x')) \<or> ((\<forall>x'\<in>set xs. f x' = []) \<and> f x = y # ys)"
proof (induction xs)
  case Nil
  then show ?case by simp
next
  case (Cons a xs)
  show ?case
  proof (cases "f a")
    case Nil
    with Cons show ?thesis by auto
  next
    case (Cons b bs)
    with Cons.prems have "y \<in> set (f a)" by simp
    then show ?thesis by auto
  qed
qed

lemma first_match_owner_absent:
  assumes m: "matcher True n SSH_PATH_RE \<lparr>rest = input, caps = Map.empty\<rparr> = y # ys"
    and ow: "caps y ''owner'' = None"
  shows "\<exists>t k. 1 \<le> k \<and> k \<le> run repo_step t \<and> tail_ok (drop k t) \<and> caps y ''repo'' = Some (take k t)
           \<and> (\<forall>j. 1 \<le> j \<and> j \<le> run (hdp segc) t \<longrightarrow> \<not> t7_ok (drop j t))"
proof -
  let ?T7 = "Seq re_repo re_tail"
  from seq_first[OF m[unfolded SSH_PATH_RE_def]] obtain x1 z1 where
    "matcher True n (Seq re_proto (Seq re_user (Seq re_domain (Seq re_port (Seq re_owner ?T7))))) x1 = y # z1"
    by blast
  from seq_first[OF this] obtain x2 z2 where
    "matcher True n (Seq re_user (Seq re_domain (Seq re_port (Seq re_owner ?T7)))) x2 = y # z2"
    by blast
  from seq_first[OF this] obtain x3 z3 where
    "matcher True n (Seq re_domain (Seq re_port (Seq re_owner ?T7))) x3 = y # z3"
    by blast
  from seq_first[OF this] obtain x4 z4 where
    "matcher True n (Seq re_port (Seq re_owner ?T7)) x4 = y # z4"
    by blast
  from seq_first[OF this] obtain x5 z5 where
    m6: "matcher True n (Seq re_owner ?T7) x5 = y # z5"
    by blast
  define P where "P = (case rest x5 of [] \<Rightarrow> []
      | c # t \<Rightarrow> if sepc c then map (\<lambda>k. cap_skip ''owner'' k (x5\<lparr>rest := t\<rparr>)) (rev [1..<Suc (run (hdp segc) t)])
                 else [])"
  have so: "matcher True n re_owner x5 = P @ [x5]"
    unfolding stage_owner P_def ..
  have "concat (map (matcher True n ?T7) (P @ [x5])) = y # z5"
    using m6 unfolding matcher.simps(7)[of True n re_owner] so .
  from concat_snoc_first[OF this]
  have "(\<forall>x'\<in>set P. matcher True n ?T7 x' = []) \<and> matcher True n ?T7 x5 = y # z5"
  proof (elim disjE bexE)
    fix x' assume x': "x' \<in> set P" and y': "y \<in> set (matcher True n ?T7 x')"
    from x' have "caps x' ''owner'' \<noteq> None"
      unfolding P_def by (cases "rest x5") (auto simp: cap_skip_def simp del: upt_Suc split: if_splits)
    moreover have "caps y ''owner'' = caps x' ''owner''"
      using frame[OF y', of "''owner''"] by (simp add: group_names_pieces group_names_tail)
    ultimately show ?thesis using ow by simp
  qed
  then have none: "\<forall>x'\<in>set P. matcher True n ?T7 x' = []" and m7: "matcher True n ?T7 x5 = y # z5"
    by blast+
  from m7 have "y \<in> set (matcher True n ?T7 x5)" by simp
  from seq_mem[OF this] obtain x7 where x7: "x7 \<in> set (matcher True n re_repo x5)"
    and y7: "y \<in> set (matcher True n re_tail x7)" by blast
  from repo_mem[OF x7] obtain c t k where r: "rest x5 = c # t" and c: "sepc c"
    and k: "1 \<le> k" "k \<le> run repo_step t" and e7: "x7 = cap_skip ''repo'' k (x5\<lparr>rest := t\<rparr>)"
    by blast
  have "matcher True n re_tail x7 \<noteq> []" using y7 by auto
  then have tl: "tail_ok (drop k t)"
    unfolding tail_iff e7 by (simp add: cap_skip_def)
  have "caps y = caps x7" using frame_all[OF y7 group_names_tail] .
  then have rp: "caps y ''repo'' = Some (take k t)"
    using e7 by (simp add: cap_skip_def)
  have P: "P = map (\<lambda>k. cap_skip ''owner'' k (x5\<lparr>rest := t\<rparr>)) (rev [1..<Suc (run (hdp segc) t)])"
    unfolding P_def using r c by simp
  have "\<forall>j. 1 \<le> j \<and> j \<le> run (hdp segc) t \<longrightarrow> \<not> t7_ok (drop j t)"
  proof (intro allI impI)
    fix j assume j: "1 \<le> j \<and> j \<le> run (hdp segc) t"
    then have "cap_skip ''owner'' j (x5\<lparr>rest := t\<rparr>) \<in> set P"
      unfolding P by (auto simp del: upt_Suc)
    with none have "matcher True n ?T7 (cap_skip ''owner'' j (x5\<lparr>rest := t\<rparr>)) = []" by blast
    then show "\<not> t7_ok (drop j t)"
      using t7_iff[of n "cap_skip ''owner'' j (x5\<lparr>rest := t\<rparr>)"] by (simp add: cap_skip_def)
  qed
  with k tl rp show ?thesis by blast
qed

subsection \<open>Parsing the canonical form\<close>

lemma concat_all_nil: "(\<forall>x\<in>set xs. f x = []) \<Longrightarrow> concat (map f xs) = []"
  by (induction xs) auto

lemma not_space_s: "\<not> is_space (CHR ''s'')"
  by (simp add: is_space_def)

lemma owner_repo_tail_hd:
  assumes r: "R \<noteq> []" "list_all repoc R"
    and o: "(ow \<noteq> [] \<and> list_all segc ow)
            \<or> (ow = [] \<and> (\<forall>j. 1 \<le> j \<and> j \<le> run (hdp segc) (R @ ''.git'') \<longrightarrow> \<not> t7_ok (drop j (R @ ''.git''))))"
    and x: "rest x = CHR ''/'' # ow @ (if ow = [] then [] else ''/'') @ R @ ''.git''"
  shows "\<exists>y ys. matcher True n (Seq re_owner (Seq re_repo re_tail)) x = y # ys
           \<and> caps y = (if ow = [] then (caps x)(''repo'' \<mapsto> R) else (caps x)(''owner'' \<mapsto> ow, ''repo'' \<mapsto> R))"
proof (cases "ow = []")
  case False
  with o have ow: "ow \<noteq> []" "list_all segc ow" by auto
  have "rest x = CHR ''/'' # ow @ CHR ''/'' # (R @ ''.git'')" using x False by simp
  from owner_hd[OF this ow] obtain xs where
    x6: "matcher True n re_owner x = x\<lparr>rest := CHR ''/'' # (R @ ''.git''), caps := (caps x)(''owner'' \<mapsto> ow)\<rparr> # xs"
    by blast
  let ?x6 = "x\<lparr>rest := CHR ''/'' # (R @ ''.git''), caps := (caps x)(''owner'' \<mapsto> ow)\<rparr>"
  have "rest ?x6 = CHR ''/'' # R @ ''.git''" by simp
  from repo_tail_hd[OF this r] obtain y ys where
    y: "matcher True n (Seq re_repo re_tail) ?x6 = y # ys" and c: "caps y = (caps ?x6)(''repo'' \<mapsto> R)"
    by blast
  from seq_hd[OF x6 y] obtain zs where "matcher True n (Seq re_owner (Seq re_repo re_tail)) x = y # zs" ..
  then show ?thesis using c False by auto
next
  case True
  with o have no: "\<forall>j. 1 \<le> j \<and> j \<le> run (hdp segc) (R @ ''.git'') \<longrightarrow> \<not> t7_ok (drop j (R @ ''.git''))"
    by auto
  have rx: "rest x = CHR ''/'' # R @ ''.git''" using x True by simp
  let ?P = "map (\<lambda>k. cap_skip ''owner'' k (x\<lparr>rest := R @ ''.git''\<rparr>)) (rev [1..<Suc (run (hdp segc) (R @ ''.git''))])"
  have so: "matcher True n re_owner x = ?P @ [x]"
    unfolding stage_owner using rx by (simp add: sepc_iff del: upt_Suc)
  have "\<forall>x'\<in>set ?P. matcher True n (Seq re_repo re_tail) x' = []"
  proof
    fix x' assume "x' \<in> set ?P"
    from in_map_rev_upt[OF this] obtain j where j: "1 \<le> j" "j \<le> run (hdp segc) (R @ ''.git'')"
      and x': "x' = cap_skip ''owner'' j (x\<lparr>rest := R @ ''.git''\<rparr>)" by blast
    have "\<not> t7_ok (rest x')" using no j x' by (simp add: cap_skip_def)
    then show "matcher True n (Seq re_repo re_tail) x' = []"
      using t7_iff[of n x'] by simp
  qed
  then have nil: "concat (map (matcher True n (Seq re_repo re_tail)) ?P) = []"
    by (rule concat_all_nil)
  from repo_tail_hd[OF rx r] obtain y ys where
    y: "matcher True n (Seq re_repo re_tail) x = y # ys" and c: "caps y = (caps x)(''repo'' \<mapsto> R)"
    by blast
  have "matcher True n (Seq re_owner (Seq re_repo re_tail)) x = y # ys"
    unfolding matcher.simps(7)[of True n re_owner] so using nil y by simp
  then show ?thesis using c True by auto
qed

lemma reparse:
  assumes u: "user_str U" and d: "D \<noteq> []" "list_all segc D"
    and p: "P \<noteq> []" "length P \<le> 5" "list_all digc P"
    and r: "R \<noteq> []" "list_all repoc R"
    and o: "(ow \<noteq> [] \<and> list_all segc ow)
            \<or> (ow = [] \<and> (\<forall>j. 1 \<le> j \<and> j \<le> run (hdp segc) (R @ ''.git'') \<longrightarrow> \<not> t7_ok (drop j (R @ ''.git''))))"
    and c: "C = ''ssh://'' @ U @ ''@'' @ D @ '':'' @ P @ ''/'' @ ow @ (if ow = [] then [] else ''/'') @ R @ ''.git''"
  shows "\<exists>y ys. matcher True (length C) SSH_PATH_RE \<lparr>rest = C, caps = Map.empty\<rparr> = y # ys
           \<and> caps y ''user'' = Some U \<and> caps y ''domain'' = Some D \<and> caps y ''port'' = Some P
           \<and> caps y ''owner'' = (if ow = [] then None else Some ow) \<and> caps y ''repo'' = Some R"
proof -
  let ?n = "length C"
  let ?Z5 = "ow @ (if ow = [] then [] else ''/'') @ R @ ''.git''"
  let ?s0 = "\<lparr>rest = C, caps = Map.empty\<rparr>"
  let ?x2 = "?s0\<lparr>rest := U @ ''@'' @ D @ '':'' @ P @ ''/'' @ ?Z5, caps := (caps ?s0)(''proto'' \<mapsto> ''ssh'')\<rparr>"
  let ?x3 = "?x2\<lparr>rest := D @ '':'' @ P @ ''/'' @ ?Z5, caps := (caps ?x2)(''user'' \<mapsto> U)\<rparr>"
  let ?x4 = "?x3\<lparr>rest := CHR '':'' # (P @ ''/'' @ ?Z5), caps := (caps ?x3)(''domain'' \<mapsto> D)\<rparr>"
  let ?x5 = "?x4\<lparr>rest := CHR ''/'' # ?Z5, caps := (caps ?x4)(''port'' \<mapsto> P)\<rparr>"
  have l: "matcher True ?n re_lead ?s0 = ?s0 # []"
    using lead_hd[of ?s0 ?n "CHR ''s''"] not_space_s unfolding c by simp
  have "rest ?s0 = ''ssh://'' @ (U @ ''@'' @ D @ '':'' @ P @ ''/'' @ ?Z5)" unfolding c by simp
  from proto_hd[OF this] obtain ys2 where m2: "matcher True ?n re_proto ?s0 = ?x2 # ys2" by blast
  have "rest ?x2 = U @ CHR ''@'' # (D @ '':'' @ P @ ''/'' @ ?Z5)" by simp
  from user_hd[OF this u] obtain ys3 where m3: "matcher True ?n re_user ?x2 = ?x3 # ys3" by auto
  have "rest ?x3 = D @ CHR '':'' # (P @ ''/'' @ ?Z5)" by simp
  from domain_hd[OF this d] obtain ys4 where m4: "matcher True ?n re_domain ?x3 = ?x4 # ys4" by auto
  have "rest ?x4 = CHR '':'' # P @ CHR ''/'' # ?Z5" by simp
  from port_hd[OF this p] obtain ys5 where m5: "matcher True ?n re_port ?x4 = ?x5 # ys5" by auto
  have "rest ?x5 = CHR ''/'' # ow @ (if ow = [] then [] else ''/'') @ R @ ''.git''" by simp
  from owner_repo_tail_hd[OF r o this] obtain y ys6 where
    m6: "matcher True ?n (Seq re_owner (Seq re_repo re_tail)) ?x5 = y # ys6"
    and cy: "caps y = (if ow = [] then (caps ?x5)(''repo'' \<mapsto> R) else (caps ?x5)(''owner'' \<mapsto> ow, ''repo'' \<mapsto> R))"
    by blast
  from seq_hd[OF m5 m6] obtain z5 where
    "matcher True ?n (Seq re_port (Seq re_owner (Seq re_repo re_tail))) ?x4 = y # z5" ..
  from seq_hd[OF m4 this] obtain z4 where
    "matcher True ?n (Seq re_domain (Seq re_port (Seq re_owner (Seq re_repo re_tail)))) ?x3 = y # z4" ..
  from seq_hd[OF m3 this] obtain z3 where
    "matcher True ?n (Seq re_user (Seq re_domain (Seq re_port (Seq re_owner (Seq re_repo re_tail))))) ?x2 = y # z3" ..
  from seq_hd[OF m2 this] obtain z2 where
    "matcher True ?n (Seq re_proto (Seq re_user (Seq re_domain (Seq re_port (Seq re_owner (Seq re_repo re_tail)))))) ?s0
       = y # z2" ..
  from seq_hd[OF l this] obtain z1 where
    "matcher True ?n SSH_PATH_RE ?s0 = y # z1" unfolding SSH_PATH_RE_def ..
  moreover have "caps y ''user'' = Some U" "caps y ''domain'' = Some D" "caps y ''port'' = Some P"
    "caps y ''owner'' = (if ow = [] then None else Some ow)" "caps y ''repo'' = Some R"
    unfolding cy by simp_all
  ultimately show ?thesis by blast
qed

lemma user_str_git: "user_str ''git''"
  by (simp add: user_str_def uhc_def utc_def cls_any_def in_range_def)

lemma location_port_bound:
  assumes "wf_caps m"
  shows "port (location_of m) < 100000"
proof (cases "m ''port''")
  case None
  then show ?thesis by (simp add: location_of_def)
next
  case (Some p)
  with assms have pp: "length p \<le> 5" "list_all digc p" by (auto simp: wf_caps_def)
  have "Number_digits p < 10 ^ length p" using Number_bound[OF pp(2)] .
  also have "\<dots> \<le> (10::nat) ^ 5" using pp(1) by (rule power_increasing) simp
  finally show ?thesis using Some by (simp add: location_of_def)
qed

section \<open>Properties of the effects\<close>

subsection \<open>Steps of a run\<close>

lemma falsy_iff [simp]: "falsy x = (\<not> truthy x)"
  by (cases x) auto

lemmas io_defs = ret_def throw_def bind_def emit_def await_def try_catch_def try_finally_def
  lift_result_def createWriteStream_def stream_write_def stream_end_def when_true_def

lemma steps_append: "steps (xs @ ys) = bind (steps xs) (\<lambda>_. steps ys)"
  by (induction xs) (auto simp: bind_def ret_def fun_eq_iff split: prod.splits sum.splits)

lemma steps_forward:
  "writable w \<Longrightarrow> steps (map forward_chunk chunks) w = (Inr (), w\<lparr>trace := trace w @ map Write chunks\<rparr>)"
  by (induction chunks arbitrary: w) (auto simp: io_defs forward_chunk_def)

lemma spawn_forward:
  "writable w \<Longrightarrow> spawn E cmd args forward_chunk envv w =
     ((case snd (spawnAsync E cmd args envv) of None \<Rightarrow> Inr () | Some e \<Rightarrow> Inl e),
      w\<lparr>trace := trace w @ SpawnAsync cmd args envv # map Write (fst (spawnAsync E cmd args envv))\<rparr>)"
  by (cases "spawnAsync E cmd args envv")
     (auto simp: spawn_def steps_append steps_forward io_defs split: option.splits)

lemma scan_step:
  "when_true (\<not> isHttpOrHttps url) (addHostToKnownHosts E url) w =
     (if isHttpOrHttps url then (Inr (), w)
      else case sanitizeRepoPathSSH url of
             Inl e \<Rightarrow> (Inl e, w)
           | Inr l \<Rightarrow>
               (case execAsync E (keyscan_command E l) of
                  None \<Rightarrow> (Inr (), w\<lparr>trace := trace w @ [ExecAsync (keyscan_command E l)]\<rparr>)
                | Some e \<Rightarrow> (Inl e, w\<lparr>trace := trace w @ [ExecAsync (keyscan_command E l),
                     ConsoleError (''Error adding host to known_hosts: '' @ error_to_string e)]\<rparr>)))"
  by (auto simp: io_defs addHostToKnownHosts_def Let_def split: sum.splits option.splits)


lemma scan_step2:
  "when_true (\<not> isHttpOrHttps url) (addHostToKnownHosts E url) w =
     ((case scan_outcome E url of None \<Rightarrow> Inr () | Some e \<Rightarrow> Inl e), w\<lparr>trace := trace w @ scan_trace E url\<rparr>)"
  by (simp add: scan_step scan_outcome_def scan_trace_def split: sum.splits option.splits)

lemma touch_step:
  "touch_key E keyId w =
     ((case touch_outcome E keyId of None \<Rightarrow> Inr () | Some e \<Rightarrow> Inl e), w\<lparr>trace := trace w @ touch_trace E keyId\<rparr>)"
  by (simp add: touch_key_def touch_outcome_def touch_trace_def io_defs split: option.splits)

lemma await_step:
  "await ev out w = ((case out of None \<Rightarrow> Inr () | Some e \<Rightarrow> Inl e), w\<lparr>trace := trace w @ [ev]\<rparr>)"
  by (simp add: io_defs split: option.splits)

lemma write_step: "stream_write t w = (Inr (), w\<lparr>trace := trace w @ [Write t]\<rparr>)"
  by (simp add: io_defs)

lemma try_block_run:
  assumes "writable w"
  shows "clone_try_block E url branch keyId keyPath outputPath knownHostsPath w =
     (case scan_outcome E url of
        Some e \<Rightarrow> (Inl e, w\<lparr>trace := trace w @ scan_trace E url\<rparr>)
      | None \<Rightarrow>
     (case recreateDirectory E outputPath of
        Some e \<Rightarrow> (Inl e, w\<lparr>trace := trace w @ scan_trace E url @ [RecreateDirectory outputPath]\<rparr>)
      | None \<Rightarrow>
     (case touch_outcome E keyId of
        Some e \<Rightarrow> (Inl e, w\<lparr>trace := trace w @ scan_trace E url @ [RecreateDirectory outputPath,
                      Write (cloning_line url outputPath)] @ touch_trace E keyId\<rparr>)
      | None \<Rightarrow>
     (let args = local_clone_args branch url outputPath;
          envv = spawn_env E keyId keyPath knownHostsPath;
          tr = trace w @ scan_trace E url @ [RecreateDirectory outputPath,
                      Write (cloning_line url outputPath)] @ touch_trace E keyId
                  @ SpawnAsync ''git'' args envv # map Write (fst (spawnAsync E ''git'' args envv))
      in case snd (spawnAsync E ''git'' args envv) of
        Some e \<Rightarrow> (Inl e, w\<lparr>trace := tr\<rparr>)
      | None \<Rightarrow> (Inr (), w\<lparr>trace := tr @ [Write (cloned_line url)]\<rparr>)))))"
  using assms
  by (simp add: clone_try_block_def bind_def ret_def scan_step2 touch_step await_step write_step spawn_forward Let_def
       split: option.splits)


lemma clone_run:
  assumes "truthy (customGitUrl entity)" and "truthy (customGitBranch entity)"
  shows "cloneGitRepository E entity logPath isCompose world0 =
     (case clone_try_block E (tpl (customGitUrl entity)) (tpl (customGitBranch entity)) (customGitSSHKeyId entity)
             (keyPath_of E False (customGitSSHKeyId entity)) (outputPath_of E False isCompose (appName entity))
             (knownHostsPath_of E False) \<lparr>trace = [CreateWriteStream logPath], writable = True\<rparr> of
        (r, w') \<Rightarrow> (r, \<lparr>trace = trace w' @ (case r of Inl e \<Rightarrow> [Write (failure_line e)] | Inr u \<Rightarrow> []) @ [End],
                        writable = False\<rparr>))"
  using assms
  by (simp add: cloneGitRepository_def Let_def bind_def createWriteStream_def world0_def try_finally_def
        try_catch_def stream_end_def write_step throw_def split: prod.splits sum.splits)

subsection \<open>The host classifier\<close>

lemma js_match_Bol: "js_match ic (Seq Bol r) input = match_at ic (Seq Bol r) input 0"
proof (rule js_match_anchored)
  fix i assume "0 < i" and "i \<le> length input"
  then have "length (drop i input) \<noteq> length input" by simp
  then show "match_at ic (Seq Bol r) input i = None"
    by (simp add: match_at_def)
qed

lemma seq_opt_lit:
  "matcher ic n (Seq (Rep 0 (Fin (Suc 0)) (Lit a)) r) s =
     (case rest s of [] \<Rightarrow> matcher ic n r s
      | c # cs \<Rightarrow> if lit_match ic a c then matcher ic n r (s\<lparr>rest := cs\<rparr>) @ matcher ic n r s
                  else matcher ic n r s)"
  by (simp add: matcher.simps(9) one_char_def clear_caps_def advance_def split: list.splits)

lemma isHttpOrHttps_iff:
  "isHttpOrHttps url = (startsWith url ''http://'' \<or> startsWith url ''https://'')"
  unfolding isHttpOrHttps_def js_match_Bol http_re_def match_at_def
  apply (simp only: matcher.simps(7)[of _ _ Bol] matcher.simps(5))
  apply (simp add: seq_lit seq_opt_lit one_char_def advance_def lit_match_def del: matcher.simps(7) split: list.splits)
  done

subsection \<open>Traces\<close>

lemma no_spawn_scan: "\<forall>ev\<in>set (scan_trace E url). \<not> is_spawn ev"
  by (auto simp: scan_trace_def split: sum.splits option.splits)

lemma no_spawn_touch: "\<forall>ev\<in>set (touch_trace E k). \<not> is_spawn ev"
  by (simp add: touch_trace_def)

lemma written_append: "written (xs @ ys) = written xs @ written ys"
  by (induction xs rule: written.induct) auto

lemma written_scan: "written (scan_trace E url) = []"
  by (simp add: scan_trace_def split: sum.splits option.splits)

lemma written_touch: "written (touch_trace E k) = []"
  by (simp add: touch_trace_def)



lemma quiet_local_run:
  "trace (snd (cloneGitRepository quiet_env demo_entity ''/var/log/app.log'' False world0)) =
     [CreateWriteStream ''/var/log/app.log'',
      RecreateDirectory ''/etc/dokploy/applications/app/code'',
      Write (cloning_line ''https://github.com/owner/repo.git'' ''/etc/dokploy/applications/app/code''),
      SpawnAsync ''git''
        [''clone'', ''--branch'', ''main'', ''--depth'', ''1'', ''--recurse-submodules'',
         ''https://github.com/owner/repo.git'', ''/etc/dokploy/applications/app/code'', ''--progress''] [],
      Write (cloned_line ''https://github.com/owner/repo.git''),
      End]"
  by (simp add: clone_run try_block_run demo_entity_def quiet_env_def quiet_paths_def scan_outcome_def
      scan_trace_def touch_outcome_def touch_trace_def isHttpOrHttps_iff outputPath_of_def
      local_clone_args_def spawn_env_def Let_def)

lemma quiet_remote_script:
  "getCustomGitCloneCommand quiet_env demo_remote_entity ''/var/log/app.log'' False world0 =
     (Inr (join_with NL
        [''rm -rf /etc/dokploy/applications/app/code;'',
         ''mkdir -p /etc/dokploy/applications/app/code;'',
         ''echo '' @ DQ @ ''Cloning Custom Git https://github.com/owner/repo.git'' @ DQ
            @ '' to /etc/dokploy/applications/app/code: '' @ check_mark @ '' >> /var/log/app.log;'',
         remote_clone_block ''main'' ''https://github.com/owner/repo.git''
            ''/etc/dokploy/applications/app/code'' ''/var/log/app.log'',
         ''echo '' @ DQ @ ''Cloned Custom Git https://github.com/owner/repo.git: '' @ check_mark @ DQ
            @ '' >> /var/log/app.log;'']), world0)"
  by (simp add: getCustomGitCloneCommand_def demo_remote_entity_def quiet_env_def quiet_paths_def
      custom_git_script_def touch_key_def when_true_def try_catch_def lift_result_def bind_def ret_def
      isHttpOrHttps_iff outputPath_of_def Let_def)

subsection \<open>The texts of the log lines\<close>

lemma startsWith_append: "startsWith (p @ b) p"
  by (induction p) simp_all

lemma str_includes_Nil: "str_includes s []"
  by (cases s) simp_all

lemma str_includes_here: "str_includes (p @ b) p"
proof (cases "p @ b")
  case Nil
  then show ?thesis by simp
next
  case (Cons c cs)
  have "startsWith (p @ b) p" by (rule startsWith_append)
  then show ?thesis unfolding Cons by simp
qed

lemma str_includes_append: "str_includes (a @ p @ b) p"
  by (induction a) (simp_all add: str_includes_here)

lemma cloning_line_holds:
  "str_includes (cloning_line url outputPath)
     (''Cloning Repo Custom '' @ url @ '' to '' @ outputPath @ '': '' @ check_mark)"
  "str_includes (cloning_line url outputPath) url"
  "str_includes (cloning_line url outputPath) outputPath"
proof -
  have a: "cloning_line url outputPath =
             NL @ (''Cloning Repo Custom '' @ url @ '' to '' @ outputPath @ '': '' @ check_mark) @ NL"
    by (simp add: cloning_line_def)
  have b: "cloning_line url outputPath =
             (NL @ ''Cloning Repo Custom '') @ url @ ('' to '' @ outputPath @ '': '' @ check_mark @ NL)"
    by (simp add: cloning_line_def)
  have c: "cloning_line url outputPath =
             (NL @ ''Cloning Repo Custom '' @ url @ '' to '') @ outputPath @ ('': '' @ check_mark @ NL)"
    by (simp add: cloning_line_def)
  show "str_includes (cloning_line url outputPath)
          (''Cloning Repo Custom '' @ url @ '' to '' @ outputPath @ '': '' @ check_mark)"
    by (subst a) (rule str_includes_append)
  show "str_includes (cloning_line url outputPath) url"
    by (subst b) (rule str_includes_append)
  show "str_includes (cloning_line url outputPath) outputPath"
    by (subst c) (rule str_includes_append)
qed

lemma failure_line_holds:
  "str_includes (failure_line e) (''ERROR Cloning Custom Git: '' @ error_to_string e @ '': '' @ cross_mark)"
  "str_includes (failure_line e) (error_message e)"
proof -
  have a: "failure_line e =
             NL @ (''ERROR Cloning Custom Git: '' @ error_to_string e @ '': '' @ cross_mark) @ NL"
    by (simp add: failure_line_def)
  show "str_includes (failure_line e) (''ERROR Cloning Custom Git: '' @ error_to_string e @ '': '' @ cross_mark)"
    by (subst a) (rule str_includes_append)
  show "str_includes (failure_line e) (error_message e)"
  proof (cases "error_message e = []")
    case True
    then show ?thesis by (simp add: str_includes_Nil)
  next
    case False
    then have b: "failure_line e =
             (NL @ ''ERROR Cloning Custom Git: '' @ error_name e @ '': '') @ error_message e
               @ ('': '' @ cross_mark @ NL)"
      by (simp add: failure_line_def error_to_string_def)
    show ?thesis
      by (subst b) (rule str_includes_append)
  qed
qed



lemma last_written_failure:
  assumes "truthy (customGitUrl entity)" and "truthy (customGitBranch entity)"
    and "cloneGitRepository E entity logPath isCompose world0 = (Inl e, w)"
  shows "last (written (trace w)) = failure_line e"
  using assms(3) unfolding clone_run [OF assms(1,2)]
  by (auto simp add: written_append split: prod.splits)


subsection \<open>Runs on concrete references\<close>

lemma parse_github:
  "sanitizeRepoPathSSH ''git@github.com:owner/repo.git'' =
     Inr \<lparr>user = ''git'', domain = Str ''github.com'', port = 22, owner = ''owner'', repo = Str ''repo''\<rparr>"
  by code_simp

lemma parse_example:
  "sanitizeRepoPathSSH ''ssh://deploy@git.example.com:2222/team/app'' =
     Inr \<lparr>user = ''deploy'', domain = Str ''git.example.com'', port = 2222, owner = ''team'', repo = Str ''app''\<rparr>"
  by code_simp

text \<open>
  The pattern is not anchored to a scheme: the optional protocol piece takes \<^verbatim>\<open>https://\<close> as
  it takes \<^verbatim>\<open>ssh://\<close>, so an HTTPS reference parses, with the default user and port.
\<close>

lemma parse_https:
  "sanitizeRepoPathSSH ''https://github.com/owner/repo.git'' =
     Inr \<lparr>user = ''git'', domain = Str ''github.com'', port = 22, owner = ''owner'', repo = Str ''repo''\<rparr>"
  by code_simp

lemma parse_five_digit_port:
  "sanitizeRepoPathSSH ''ssh://git@example.com:99999/owner/repo.git'' =
     Inr \<lparr>user = ''git'', domain = Str ''example.com'', port = 99999, owner = ''owner'', repo = Str ''repo''\<rparr>"
proof -
  have d: "list_all segc ''example.com''" "list_all segc ''owner''"
    by (simp_all add: segc_iff is_space_def)
  have p: "list_all digc ''99999''"
    by (simp add: digc_iff in_range_def)
  have r: "list_all repoc ''repo''"
    by (simp add: repoc_def repoA_iff is_space_def)
  have o: "(''owner'' \<noteq> [] \<and> list_all segc ''owner'')
            \<or> (''owner'' = [] \<and> (\<forall>j. 1 \<le> j \<and> j \<le> run (hdp segc) (''repo'' @ ''.git'') \<longrightarrow> \<not> t7_ok (drop j (''repo'' @ ''.git''))))"
    using d by simp
  have c: "''ssh://git@example.com:99999/owner/repo.git'' =
           ''ssh://'' @ ''git'' @ ''@'' @ ''example.com'' @ '':'' @ ''99999'' @ ''/'' @ ''owner''
             @ (if ''owner'' = [] then [] else ''/'') @ ''repo'' @ ''.git''"
    by simp
  from reparse[OF user_str_git _ d(1) _ _ p _ r o c] obtain y ys where
    "matcher True (length ''ssh://git@example.com:99999/owner/repo.git'') SSH_PATH_RE
       \<lparr>rest = ''ssh://git@example.com:99999/owner/repo.git'', caps = Map.empty\<rparr> = y # ys"
    and "caps y ''user'' = Some ''git''" "caps y ''domain'' = Some ''example.com''" "caps y ''port'' = Some ''99999''"
      "caps y ''owner'' = Some ''owner''" "caps y ''repo'' = Some ''repo''"
    by auto
  then show ?thesis
    using sanitize_of_match[of "''ssh://git@example.com:99999/owner/repo.git''" y ys]
    by (simp add: location_of_def group_or_undefined_def Number_digits_def digit_val_def)
qed

lemma show_nat_22: "show_nat 22 = ''22''"
  by code_simp

lemma keyed_outcomes:
  "scan_outcome key_store_down_env ''git@github.com:owner/repo.git'' = None"
  "recreateDirectory key_store_down_env p = None"
  "updateSSHKeyById key_store_down_env k t = Some (JsError ''connection refused'')"
  by (simp_all add: scan_outcome_def isHttpOrHttps_iff parse_github key_store_down_env_def quiet_env_def)

lemma keyed_output_path:
  "outputPath_of key_store_down_env False False ''app'' = ''/etc/dokploy/applications/app/code''"
  by (simp add: outputPath_of_def key_store_down_env_def quiet_env_def quiet_paths_def)

lemma demo_values:
  "truthy (customGitUrl demo_entity)" "truthy (customGitBranch demo_entity)"
  "tpl (customGitUrl demo_entity) = ''https://github.com/owner/repo.git''"
  "outputPath_of failing_clone_env False False (appName demo_entity) = ''/etc/dokploy/applications/app/code''"
  by (simp_all add: demo_entity_def failing_clone_env_def quiet_env_def quiet_paths_def outputPath_of_def)

lemma failing_local_run:
  "cloneGitRepository failing_clone_env demo_entity ''/var/log/app.log'' False world0 =
     (Inl (JsError ''Command failed with exit code 128''),
      \<lparr>trace =
         [CreateWriteStream ''/var/log/app.log'',
          RecreateDirectory ''/etc/dokploy/applications/app/code'',
          Write (cloning_line ''https://github.com/owner/repo.git'' ''/etc/dokploy/applications/app/code''),
          SpawnAsync ''git''
            [''clone'', ''--branch'', ''main'', ''--depth'', ''1'', ''--recurse-submodules'',
             ''https://github.com/owner/repo.git'', ''/etc/dokploy/applications/app/code'', ''--progress''] [],
          Write ''fatal: repository not found'',
          Write (failure_line (JsError ''Command failed with exit code 128'')),
          End],
       writable = False\<rparr>)"
  by (simp add: clone_run try_block_run demo_entity_def failing_clone_env_def quiet_env_def quiet_paths_def
      scan_outcome_def scan_trace_def touch_outcome_def touch_trace_def isHttpOrHttps_iff outputPath_of_def
      local_clone_args_def spawn_env_def Let_def)


section \<open>The claims about the clone operations\<close>

text \<open>
  C1. The claim: the clone invocation of \<^verbatim>\<open>cloneGitRepository\<close> and the clone command text of
  \<^verbatim>\<open>getCustomGitCloneCommand\<close> carry the same flags. For the reference
  \<^verbatim>\<open>https://github.com/owner/repo.git\<close> on branch \<^verbatim>\<open>main\<close> the local executor spawns git with
  \<^verbatim>\<open>--recurse-submodules\<close>, while the script built for the same reference runs
  \<^verbatim>\<open>git clone --branch main --depth 1 --progress ...\<close> and nowhere holds that flag.
\<close>

theorem clone_flags_differ_on_recurse_submodules:
  "SpawnAsync ''git''
        [''clone'', ''--branch'', ''main'', ''--depth'', ''1'', ''--recurse-submodules'',
         ''https://github.com/owner/repo.git'', ''/etc/dokploy/applications/app/code'', ''--progress''] []
     \<in> set (trace (snd (cloneGitRepository quiet_env demo_entity ''/var/log/app.log'' False world0)))
   \<and> (case fst (getCustomGitCloneCommand quiet_env demo_remote_entity ''/var/log/app.log'' False world0) of
         Inl e \<Rightarrow> False
       | Inr script \<Rightarrow>
           str_includes script
             ''git clone --branch main --depth 1 --progress https://github.com/owner/repo.git /etc/dokploy/applications/app/code >> /var/log/app.log''
           \<and> \<not> str_includes script ''--recurse-submodules'')"
  unfolding quiet_local_run quiet_remote_script
  by (simp add: remote_clone_block_def remote_clone_words_def NL_def TAB_def DQ_def check_mark_def cross_mark_def)


text \<open>
  C2. The claim: every clone operation fails with a validation error when the url or the branch
  is absent. \<^verbatim>\<open>cloneRawGitRepositoryRemote\<close> checks the server id and the url only: with the branch
  undefined it returns normally, after sending the remote host a script that runs
  \<^verbatim>\<open>git clone --branch undefined\<close>.
\<close>

theorem raw_remote_clone_accepts_missing_branch: "fst (cloneRawGitRepositoryRemote quiet_env entity_without_branch world0) = Inr ()
  \<and> trace (snd (cloneRawGitRepositoryRemote quiet_env entity_without_branch world0)) =
     [ExecAsyncRemote (Str ''srv-1'')
        (''rm -rf /etc/dokploy/compose/app/code;'' @ NL @ ''mkdir -p /etc/dokploy/compose/app/code;'' @ NL
         @ raw_remote_clone_block ''undefined'' ''https://github.com/owner/repo.git'' ''/etc/dokploy/compose/app/code'')]
  \<and> startsWith (raw_remote_clone_block ''undefined'' ''https://github.com/owner/repo.git'' ''/etc/dokploy/compose/app/code'')
       ''if ! git clone --branch undefined --depth 1 --progress https://github.com/owner/repo.git /etc/dokploy/compose/app/code ; then''"
  by (simp add: cloneRawGitRepositoryRemote_def entity_without_branch_def quiet_env_def quiet_paths_def
        Let_def bind_def await_def emit_def ret_def throw_def world0_def touch_key_def when_true_def
        try_catch_def lift_result_def raw_remote_script_def isHttpOrHttps_iff outputPath_of_def
        raw_remote_clone_block_def remote_clone_words_def)


text \<open>
  C3. The claim: the host-key scan is invoked only for an SSH reference, and never for a
  reference whose url starts with \<^verbatim>\<open>http://\<close> or \<^verbatim>\<open>https://\<close>, in any of the clone
  operations. \<^verbatim>\<open>cloneGitRawRepository\<close> calls \<^verbatim>\<open>addHostToKnownHosts\<close> without asking
  \<^verbatim>\<open>isHttpOrHttps\<close>: for the reference \<^verbatim>\<open>https://github.com/owner/repo.git\<close>, which
  \<^verbatim>\<open>isHttpOrHttps\<close> accepts, the run starts with \<^verbatim>\<open>ssh-keyscan -p 22 github.com\<close>, appended to
  the known-hosts file, before the directory reset and the clone.
\<close>

theorem raw_clone_scans_host_of_https_reference:
  "isHttpOrHttps (tpl (customGitUrl demo_entity))
   \<and> cloneGitRawRepository quiet_env demo_entity world0 =
       (Inr (),
        \<lparr>trace = [ExecAsync ''ssh-keyscan -p 22 github.com >> /etc/dokploy/ssh/known_hosts'',
                  RecreateDirectory ''/etc/dokploy/compose/app/code'',
                  SpawnAsync ''git''
                    [''clone'', ''--branch'', ''main'', ''--depth'', ''1'',
                     ''https://github.com/owner/repo.git'', ''/etc/dokploy/compose/app/code'', ''--progress''] []],
         writable = False\<rparr>)"
  by (simp add: cloneGitRawRepository_def demo_entity_def isHttpOrHttps_iff Let_def steps.simps
        addHostToKnownHosts_def parse_https keyscan_command_def show_nat_22 knownHostsPath_of_def
        outputPath_of_def keyPath_of_def touch_key_def when_true_def spawn_def spawn_env_def raw_clone_args_def
        bind_def lift_result_def ret_def throw_def try_catch_def await_def emit_def world0_def
        quiet_env_def[unfolded quiet_paths_def, simplified])


text \<open>
  C4. The claim: in \<^verbatim>\<open>cloneGitRepository\<close> an error raised by \<^verbatim>\<open>updateSSHKeyById\<close> does not make
  the clone fail and is not surfaced to the caller. The call is awaited inside the
  \<^verbatim>\<open>try\<close> block: with the key \<^verbatim>\<open>key-1\<close> and a key store that answers
  \<^verbatim>\<open>connection refused\<close>, the clone of \<^verbatim>\<open>git@github.com:owner/repo.git\<close> returns that error.
\<close>

theorem key_bookkeeping_error_fails_clone:
  "truthy (customGitSSHKeyId keyed_entity)
   \<and> updateSSHKeyById key_store_down_env (tpl (customGitSSHKeyId keyed_entity)) (now_iso key_store_down_env)
        = Some (JsError ''connection refused'')
   \<and> fst (cloneGitRepository key_store_down_env keyed_entity ''/var/log/app.log'' False world0)
        = Inl (JsError ''connection refused'')"
  by (simp add: clone_run try_block_run keyed_outcomes touch_outcome_def keyed_entity_def)

text \<open>
  C4, as the code has it. In a run of \<^verbatim>\<open>cloneGitRepository\<close> with a credential id, in which the
  host-key scan and the directory reset succeed, an error raised by \<^verbatim>\<open>updateSSHKeyById\<close> is
  the error the caller receives; the clone child process is never spawned; the log sink
  holds the cloning line and the failure marker line with that error, and is closed.
\<close>

theorem key_bookkeeping_error_is_surfaced:
  assumes "truthy (customGitUrl entity)" and "truthy (customGitBranch entity)"
    and "truthy (customGitSSHKeyId entity)"
    and "scan_outcome E (tpl (customGitUrl entity)) = None"
    and "recreateDirectory E (outputPath_of E False isCompose (appName entity)) = None"
    and "updateSSHKeyById E (tpl (customGitSSHKeyId entity)) (now_iso E) = Some e"
  shows "fst (cloneGitRepository E entity logPath isCompose world0) = Inl e
       \<and> written (trace (snd (cloneGitRepository E entity logPath isCompose world0))) =
           [cloning_line (tpl (customGitUrl entity)) (outputPath_of E False isCompose (appName entity)),
            failure_line e]
       \<and> (\<forall>ev\<in>set (trace (snd (cloneGitRepository E entity logPath isCompose world0))). \<not> is_spawn ev)
       \<and> \<not> writable (snd (cloneGitRepository E entity logPath isCompose world0))
       \<and> str_includes
           (cloning_line (tpl (customGitUrl entity)) (outputPath_of E False isCompose (appName entity)))
           (''Cloning Repo Custom '' @ tpl (customGitUrl entity) @ '' to ''
              @ outputPath_of E False isCompose (appName entity) @ '': '' @ check_mark)
       \<and> str_includes (failure_line e)
           (''ERROR Cloning Custom Git: '' @ error_to_string e @ '': '' @ cross_mark)"
    (is "?A \<and> ?B \<and> ?C \<and> ?D \<and> ?N1 \<and> ?N2")
proof -
  have run: "?A \<and> ?B \<and> ?C \<and> ?D"
    unfolding clone_run [OF assms(1,2)] using assms(3-)
    by (auto simp add: try_block_run Let_def touch_outcome_def no_spawn_scan no_spawn_touch
          written_append written_scan written_touch split: option.splits)
  have n1: ?N1 by (rule cloning_line_holds)
  have n2: ?N2 by (rule failure_line_holds)
  from run n1 n2 show ?thesis
    by - (elim conjE, (intro conjI; assumption))
qed

theorem key_bookkeeping_error_is_surfaced_witness:
  "truthy (customGitUrl keyed_entity) \<and> truthy (customGitBranch keyed_entity)
   \<and> truthy (customGitSSHKeyId keyed_entity)
   \<and> written (trace (snd (cloneGitRepository key_store_down_env keyed_entity ''/var/log/app.log'' False world0))) =
       [cloning_line ''git@github.com:owner/repo.git'' ''/etc/dokploy/applications/app/code'',
        failure_line (JsError ''connection refused'')]
   \<and> \<not> writable (snd (cloneGitRepository key_store_down_env keyed_entity ''/var/log/app.log'' False world0))
   \<and> str_includes (failure_line (JsError ''connection refused''))
        (''ERROR Cloning Custom Git: Error: connection refused: '' @ [CHR 0xE2, CHR 0x9D, CHR 0x8C])"
  using key_bookkeeping_error_is_surfaced
    [of keyed_entity key_store_down_env False "JsError ''connection refused''" "''/var/log/app.log''"]
  by (simp add: keyed_entity_def keyed_outcomes keyed_output_path error_to_string_def cross_mark_def)


text \<open>
  C7. The claim: with a reference missing its url or branch, \<^verbatim>\<open>getCustomGitCloneCommand\<close> sends the
  remote host a command that logs an error line and exits with status 1, and throws a
  validation error. The command is awaited before the \<^verbatim>\<open>throw\<close>: when the collaborator surfaces
  the non-zero exit status, that error is what the caller receives, and the validation
  error is never raised.
\<close>

theorem missing_reference_surfaces_remote_error: "getCustomGitCloneCommand exit_status_env entity_without_branch ''/var/log/app.log'' False world0 =
    (Inl (JsError ''Command exited with code 1''),
     \<lparr>trace = [ExecAsyncRemote (Str ''srv-1'') (missing_reference_command ''/var/log/app.log'')], writable = False\<rparr>)"
  by (simp add: getCustomGitCloneCommand_def entity_without_branch_def exit_status_env_def quiet_env_def
        Let_def bind_def await_def emit_def ret_def throw_def world0_def)


text \<open>
  C8. In a run of \<^verbatim>\<open>cloneGitRepository\<close> that passes validation the log sink is closed at the
  end, on success and on failure; on failure the last write before the close is the failure
  marker line, the last text in the sink, which holds \<^verbatim>\<open>ERROR Cloning Custom Git: \<close>, the text of
  the error returned and the cross mark, and so the message of that error; and the error
  returned is the one of the step that failed: the host-key scan, the directory reset, or the
  clone child process.
\<close>

theorem clone_failure_logged_and_sink_closed:
  assumes "truthy (customGitUrl entity)" and "truthy (customGitBranch entity)"
    and "cloneGitRepository E entity logPath isCompose world0 = (r, w)"
  shows "(\<not> writable w \<and> (\<exists>tr. trace w = CreateWriteStream logPath # tr @ [End]))
       \<and> (\<forall>e. r = Inl e \<longrightarrow> (\<exists>tr. trace w = CreateWriteStream logPath # tr @ [Write (failure_line e), End]))
       \<and> (\<forall>e. scan_outcome E (tpl (customGitUrl entity)) = Some e \<longrightarrow> r = Inl e)
       \<and> (\<forall>e. scan_outcome E (tpl (customGitUrl entity)) = None
              \<and> recreateDirectory E (outputPath_of E False isCompose (appName entity)) = Some e \<longrightarrow> r = Inl e)
       \<and> (\<forall>e. scan_outcome E (tpl (customGitUrl entity)) = None
              \<and> recreateDirectory E (outputPath_of E False isCompose (appName entity)) = None
              \<and> touch_outcome E (customGitSSHKeyId entity) = None
              \<and> snd (spawnAsync E ''git''
                   (local_clone_args (tpl (customGitBranch entity)) (tpl (customGitUrl entity))
                      (outputPath_of E False isCompose (appName entity)))
                   (spawn_env E (customGitSSHKeyId entity) (keyPath_of E False (customGitSSHKeyId entity))
                      (knownHostsPath_of E False))) = Some e \<longrightarrow> r = Inl e)
       \<and> (\<forall>e. r = Inl e \<longrightarrow>
              str_includes (last (written (trace w)))
                (''ERROR Cloning Custom Git: '' @ error_to_string e @ '': '' @ cross_mark)
              \<and> str_includes (last (written (trace w))) (error_message e))"
    (is "?A \<and> ?B \<and> ?C \<and> ?D \<and> ?S \<and> ?N")
proof -
  have run: "?A \<and> ?B \<and> ?C \<and> ?D \<and> ?S"
    using assms(3) unfolding clone_run [OF assms(1,2)]
    by (simp add: try_block_run Let_def split: option.splits) auto
  have n: ?N
  proof (intro allI impI)
    fix e assume "r = Inl e"
    with assms(3) have "cloneGitRepository E entity logPath isCompose world0 = (Inl e, w)"
      by simp
    from last_written_failure [OF assms(1,2) this]
    have l: "last (written (trace w)) = failure_line e" .
    show "str_includes (last (written (trace w)))
            (''ERROR Cloning Custom Git: '' @ error_to_string e @ '': '' @ cross_mark)
          \<and> str_includes (last (written (trace w))) (error_message e)"
      unfolding l by (intro conjI) (rule failure_line_holds)+
  qed
  from run n show ?thesis
    by - (elim conjE, (intro conjI; assumption))
qed

theorem clone_failure_logged_and_sink_closed_witness:
  "truthy (customGitUrl demo_entity) \<and> truthy (customGitBranch demo_entity)
   \<and> fst (cloneGitRepository failing_clone_env demo_entity ''/var/log/app.log'' False world0)
        = Inl (JsError ''Command failed with exit code 128'')
   \<and> Write (failure_line (JsError ''Command failed with exit code 128''))
        \<in> set (trace (snd (cloneGitRepository failing_clone_env demo_entity ''/var/log/app.log'' False world0)))
   \<and> last (trace (snd (cloneGitRepository failing_clone_env demo_entity ''/var/log/app.log'' False world0))) = End
   \<and> str_includes
        (last (written (trace (snd (cloneGitRepository failing_clone_env demo_entity ''/var/log/app.log'' False world0)))))
        (''ERROR Cloning Custom Git: Error: Command failed with exit code 128: ''
           @ [CHR 0xE2, CHR 0x9D, CHR 0x8C])
   \<and> str_includes
        (last (written (trace (snd (cloneGitRepository failing_clone_env demo_entity ''/var/log/app.log'' False world0)))))
        ''Command failed with exit code 128''"
  using clone_failure_logged_and_sink_closed [OF _ _ failing_local_run]
  by (simp add: demo_values failing_local_run error_to_string_def cross_mark_def)





section \<open>The claims about the reference parser\<close>

text \<open>
  C5. The claim: the port returned by \<^verbatim>\<open>sanitizeRepoPathSSH\<close> lies between 1 and 65535. The
  pattern takes one to five decimal digits for the port and the code converts them with
  \<^verbatim>\<open>Number\<close>, with no check of the range: \<^verbatim>\<open>ssh://git@example.com:99999/owner/repo.git\<close> is
  accepted with the port 99999.
\<close>

theorem parsed_port_above_65535:
  "sanitizeRepoPathSSH ''ssh://git@example.com:99999/owner/repo.git'' =
     Inr \<lparr>user = ''git'', domain = Str ''example.com'', port = 99999, owner = ''owner'', repo = Str ''repo''\<rparr>
   \<and> \<not> port \<lparr>user = ''git'', domain = Str ''example.com'', port = 99999, owner = ''owner'', repo = Str ''repo''\<rparr>
          \<le> 65535"
  by (simp add: parse_five_digit_port)

text \<open>
  C5, as the code has it. For every input on which \<^verbatim>\<open>sanitizeRepoPathSSH\<close> succeeds the port
  returned is at most 99999; the input matches the pattern, and with the groups of that
  match: the user is \<^verbatim>\<open>git\<close> when the group \<^verbatim>\<open>user\<close> is absent, the port is 22 when the group
  \<^verbatim>\<open>port\<close> is absent and the value of its one to five decimal digits otherwise, and the
  owner is the empty string when the group \<^verbatim>\<open>owner\<close> is absent.
\<close>

theorem parsed_port_range_and_defaults:
  assumes "sanitizeRepoPathSSH input = Inr l"
  shows "port l \<le> 99999
       \<and> (\<exists>groups. js_match True SSH_PATH_RE input = Some groups
             \<and> (groups ''user'' = None \<longrightarrow> user l = ''git'')
             \<and> (groups ''port'' = None \<longrightarrow> port l = 22)
             \<and> (\<forall>p. groups ''port'' = Some p \<longrightarrow>
                    p \<noteq> [] \<and> length p \<le> 5 \<and> list_all (in_range (CHR ''0'') (CHR ''9'')) p
                    \<and> port l = Number_digits p)
             \<and> (groups ''owner'' = None \<longrightarrow> owner l = []))"
proof -
  from sanitize_Inr[OF assms] obtain y ys where
    m: "matcher True (length input) SSH_PATH_RE \<lparr>rest = input, caps = Map.empty\<rparr> = y # ys"
    and j: "js_match True SSH_PATH_RE input = Some (caps y)" and l: "l = location_of (caps y)"
    by blast
  have "y \<in> set (matcher True (length input) SSH_PATH_RE \<lparr>rest = input, caps = Map.empty\<rparr>)"
    using m by simp
  from parse_sound[OF this] have wf: "wf_caps (caps y)" .
  have dg: "digc = in_range (CHR ''0'') (CHR ''9'')"
    by (rule ext) (rule digc_iff)
  have p: "\<forall>p. caps y ''port'' = Some p \<longrightarrow>
             p \<noteq> [] \<and> length p \<le> 5 \<and> list_all (in_range (CHR ''0'') (CHR ''9'')) p \<and> port l = Number_digits p"
    using wf l by (simp add: wf_caps_def location_of_def dg)
  have pr: "port l \<le> 99999"
    using location_port_bound[OF wf] l by simp
  have d: "caps y ''user'' = None \<longrightarrow> user l = ''git''"
    "caps y ''port'' = None \<longrightarrow> port l = 22"
    "caps y ''owner'' = None \<longrightarrow> owner l = []"
    using l by (simp_all add: location_of_def)
  show ?thesis
    by (intro conjI exI[of _ "caps y"]) (fact pr j d p)+
qed

theorem parsed_port_range_and_defaults_witness:
  "sanitizeRepoPathSSH ''git@github.com:owner/repo.git'' =
     Inr \<lparr>user = ''git'', domain = Str ''github.com'', port = 22, owner = ''owner'', repo = Str ''repo''\<rparr>
   \<and> (\<exists>groups. js_match True SSH_PATH_RE ''git@github.com:owner/repo.git'' = Some groups
         \<and> (case groups ''port'' of None \<Rightarrow> True | Some p \<Rightarrow> Number_digits p = 22))"
  using parsed_port_range_and_defaults [OF parse_github] parse_github
  by (auto split: option.splits)


text \<open>
  C6. For every reference that \<^verbatim>\<open>sanitizeRepoPathSSH\<close> accepts, the canonical form
  \<^verbatim>\<open>ssh://user@domain:port/owner/repo.git\<close> built from the result (with a single slash before
  the repository when the owner is empty) is accepted too, and parsing it returns the same
  user, domain, port, owner and repository.
\<close>

theorem canonical_url_reparses:
  assumes "sanitizeRepoPathSSH input = Inr l"
  shows "sanitizeRepoPathSSH (repoPath l) = Inr l"
proof -
  from sanitize_Inr[OF assms] obtain y ys where
    m: "matcher True (length input) SSH_PATH_RE \<lparr>rest = input, caps = Map.empty\<rparr> = y # ys"
    and l: "l = location_of (caps y)"
    by blast
  have "y \<in> set (matcher True (length input) SSH_PATH_RE \<lparr>rest = input, caps = Map.empty\<rparr>)"
    using m by simp
  from parse_sound[OF this] have wf: "wf_caps (caps y)" .
  from wf obtain D where D: "caps y ''domain'' = Some D" "D \<noteq> []" "list_all segc D"
    by (auto simp: wf_caps_def)
  from wf obtain R where R: "caps y ''repo'' = Some R" "R \<noteq> []" "list_all repoc R"
    by (auto simp: wf_caps_def)
  have U: "user_str (user l)"
    using wf l user_str_git by (cases "caps y ''user''") (auto simp: wf_caps_def location_of_def)
  have pb: "port l < 10 ^ 5" using location_port_bound[OF wf] l by simp
  have P: "show_nat (port l) \<noteq> []" "length (show_nat (port l)) \<le> 5" "list_all digc (show_nat (port l))"
    using show_nat_ne show_nat_len[OF _ pb] show_nat_digits by simp_all
  have O: "(owner l \<noteq> [] \<and> list_all segc (owner l))
            \<or> (owner l = [] \<and> (\<forall>j. 1 \<le> j \<and> j \<le> run (hdp segc) (R @ ''.git'') \<longrightarrow> \<not> t7_ok (drop j (R @ ''.git''))))"
  proof (cases "caps y ''owner''")
    case (Some ow)
    then show ?thesis using wf l by (simp add: wf_caps_def location_of_def)
  next
    case None
    from first_match_owner_absent[OF m None] obtain t k where
      k: "1 \<le> k" "k \<le> run repo_step t" and tl: "tail_ok (drop k t)" and rp: "caps y ''repo'' = Some (take k t)"
      and no: "\<forall>j. 1 \<le> j \<and> j \<le> run (hdp segc) t \<longrightarrow> \<not> t7_ok (drop j t)"
      by blast
    have "R = take k t" using rp R(1) by simp
    then have "\<forall>j. 1 \<le> j \<and> j \<le> run (hdp segc) (R @ ''.git'') \<longrightarrow> \<not> t7_ok (drop j (R @ ''.git''))"
      using owner_absent_stable[OF k tl no] by blast
    moreover have "owner l = []" using None l by (simp add: location_of_def)
    ultimately show ?thesis by simp
  qed
  have dl: "domain l = Str D" "repo l = Str R"
    using l D(1) R(1) by (simp_all add: location_of_def group_or_undefined_def)
  have c: "repoPath l = ''ssh://'' @ user l @ ''@'' @ D @ '':'' @ show_nat (port l) @ ''/'' @ owner l
             @ (if owner l = [] then [] else ''/'') @ R @ ''.git''"
    by (simp add: repoPath_def dl)
  from reparse[OF U D(2,3) P R(2,3) O c] obtain y' ys' where
    m': "matcher True (length (repoPath l)) SSH_PATH_RE \<lparr>rest = repoPath l, caps = Map.empty\<rparr> = y' # ys'"
    and c': "caps y' ''user'' = Some (user l)" "caps y' ''domain'' = Some D"
      "caps y' ''port'' = Some (show_nat (port l))"
      "caps y' ''owner'' = (if owner l = [] then None else Some (owner l))" "caps y' ''repo'' = Some R"
    by blast
  have "location_of (caps y') = l"
    using c' dl by (simp add: location_of_def group_or_undefined_def Number_show)
  with sanitize_of_match[OF m'] show ?thesis by simp
qed

theorem canonical_url_reparses_witness:
  "sanitizeRepoPathSSH ''git@github.com:owner/repo.git'' =
     Inr \<lparr>user = ''git'', domain = Str ''github.com'', port = 22, owner = ''owner'', repo = Str ''repo''\<rparr>
   \<and> repoPath \<lparr>user = ''git'', domain = Str ''github.com'', port = 22, owner = ''owner'', repo = Str ''repo''\<rparr>
       = ''ssh://git@github.com:22/owner/repo.git''
   \<and> sanitizeRepoPathSSH ''ssh://git@github.com:22/owner/repo.git'' =
       Inr \<lparr>user = ''git'', domain = Str ''github.com'', port = 22, owner = ''owner'', repo = Str ''repo''\<rparr>"
proof -
  have c: "repoPath \<lparr>user = ''git'', domain = Str ''github.com'', port = 22, owner = ''owner'', repo = Str ''repo''\<rparr>
             = ''ssh://git@github.com:22/owner/repo.git''"
    by (simp add: repoPath_def show_nat_22)
  from canonical_url_reparses [OF parse_github] show ?thesis
    unfolding c using parse_github c by simp
qed


text \<open>
  C9. \<^verbatim>\<open>sanitizeRepoPathSSH\<close> returns, for \<^verbatim>\<open>git@github.com:owner/repo.git\<close>, the user \<^verbatim>\<open>git\<close>, the
  domain \<^verbatim>\<open>github.com\<close>, the port 22, the owner \<^verbatim>\<open>owner\<close> and the repository \<^verbatim>\<open>repo\<close>; and for
  \<^verbatim>\<open>ssh://deploy@git.example.com:2222/team/app\<close>, the user \<^verbatim>\<open>deploy\<close>, the domain
  \<^verbatim>\<open>git.example.com\<close>, the port 2222, the owner \<^verbatim>\<open>team\<close> and the repository \<^verbatim>\<open>app\<close>.
\<close>

theorem sanitize_examples:
  "sanitizeRepoPathSSH ''git@github.com:owner/repo.git'' =
     Inr \<lparr>user = ''git'', domain = Str ''github.com'', port = 22, owner = ''owner'', repo = Str ''repo''\<rparr>
   \<and> sanitizeRepoPathSSH ''ssh://deploy@git.example.com:2222/team/app'' =
     Inr \<lparr>user = ''deploy'', domain = Str ''git.example.com'', port = 2222, owner = ''team'', repo = Str ''app''\<rparr>"
  using parse_github parse_example by (rule conjI)


end
